theory Spec2Isabelle
  imports Main "HOL-Library.Sublist"
begin

section \<open>JavaScript strings\<close>

text \<open>
  A JavaScript string is a sequence of UTF-16 code units. It is modelled as a list of
  natural numbers, one per code unit, so that \<open>length\<close>, \<open>slice\<close>, \<open>trim\<close> and the
  regular expressions of the source count what the source counts. \<open>js\<close> turns an ASCII
  literal into its code units; the few non-ASCII literals of the source are written out
  as code units.
\<close>

type_synonym jstring = "nat list"

definition js :: "string \<Rightarrow> jstring" where
  "js s = map of_char s"

text \<open>
  \<open>String(n)\<close> and template interpolation of a non-negative integer below \<open>10^21\<close>
  (above that JavaScript switches to exponent notation); it is used for lengths,
  counters, HTTP status codes and the configured token limit.
\<close>

function show_nat :: "nat \<Rightarrow> jstring" where
  "show_nat n = (if n < 10 then [48 + n] else show_nat (n div 10) @ [48 + n mod 10])"
  by pat_completeness auto
termination
  by (relation "measure id") auto

text \<open>
  ECMAScript \<open>WhiteSpace\<close> and \<open>LineTerminator\<close> code units: the set that \<open>\s\<close>
  matches and that \<open>String.prototype.trim\<close> removes.
\<close>

definition is_space :: "nat \<Rightarrow> bool" where
  "is_space c \<longleftrightarrow>
     c = 9 \<or> c = 10 \<or> c = 11 \<or> c = 12 \<or> c = 13 \<or> c = 32 \<or> c = 160 \<or> c = 5760 \<or>
     (8192 \<le> c \<and> c \<le> 8202) \<or> c = 8232 \<or> c = 8233 \<or> c = 8239 \<or> c = 8287 \<or>
     c = 12288 \<or> c = 65279"

text \<open>\<open>\w\<close> without the \<open>u\<close> flag: ASCII letters, digits and the underscore.\<close>

definition is_word :: "nat \<Rightarrow> bool" where
  "is_word c \<longleftrightarrow>
     (48 \<le> c \<and> c \<le> 57) \<or> (65 \<le> c \<and> c \<le> 90) \<or> c = 95 \<or> (97 \<le> c \<and> c \<le> 122)"

definition trim :: "jstring \<Rightarrow> jstring" where
  "trim s = rev (dropWhile is_space (rev (dropWhile is_space s)))"

definition startsWith :: "jstring \<Rightarrow> jstring \<Rightarrow> bool" where
  "startsWith s p \<longleftrightarrow> take (length p) s = p"

text \<open>\<open>s.slice(0, n)\<close> for a non-negative \<open>n\<close>.\<close>

definition slice0 :: "jstring \<Rightarrow> nat \<Rightarrow> jstring" where
  "slice0 s n = take n s"

text \<open>
  The preview idiom of the source: \<open>s.length > n ? s.slice(0, n) + '\<dots>' : s\<close>
  (the ellipsis is the single code unit U+2026).
\<close>

definition preview :: "nat \<Rightarrow> jstring \<Rightarrow> jstring" where
  "preview n s = (if length s > n then slice0 s n @ [8230] else s)"

section \<open>Configuration constants (config.ts)\<close>

definition ASSISTANT_NAME :: jstring where
  "ASSISTANT_NAME = js ''Andy''"

definition CONTEXT_WINDOW_SIZE :: nat where
  "CONTEXT_WINDOW_SIZE = 50"

definition FETCH_MAX_RESPONSE :: nat where
  "FETCH_MAX_RESPONSE = 20000"

definition DEFAULT_GROUP_ID :: jstring where
  "DEFAULT_GROUP_ID = js ''br:main''"

section \<open>The trigger pattern (config.ts, buildTriggerPattern)\<close>

text \<open>
  \<open>buildTriggerPattern\<close> escapes every regular-expression metacharacter of the name
  with a backslash and builds \<open>new RegExp(`(^|\\s)@${escaped}\\b`, 'i')\<close>.
  \<open>escape_regex\<close> is the \<open>replace\<close> of line 10; \<open>pattern_atoms\<close> reads an escaped
  name back the way the RegExp parser does (a backslash makes the next code unit a
  literal), so that the parsed pattern is the abstract syntax \<open>rx\<close> below.
\<close>

definition regex_specials :: "nat list" where
  "regex_specials = [46, 42, 43, 63, 94, 36, 123, 125, 40, 41, 124, 91, 93, 92]"

definition escape_regex :: "jstring \<Rightarrow> jstring" where
  "escape_regex name = concat (map (\<lambda>c. if c \<in> set regex_specials then [92, c] else [c]) name)"

fun pattern_atoms :: "jstring \<Rightarrow> nat list" where
  "pattern_atoms [] = []"
| "pattern_atoms [c] = [c]"
| "pattern_atoms (c # d # cs) = (if c = 92 then d # pattern_atoms cs else c # pattern_atoms (d # cs))"

datatype rx =
    RStart                 \<comment> \<open>\<open>^\<close>\<close>
  | RSpace                 \<comment> \<open>\<open>\s\<close>\<close>
  | RLit nat               \<comment> \<open>a literal code unit\<close>
  | RWordB                 \<comment> \<open>\<open>\b\<close>\<close>
  | RAlt rx rx             \<comment> \<open>\<open>(a|b)\<close>\<close>
  | RSeq rx rx             \<comment> \<open>concatenation\<close>
  | REmpty                 \<comment> \<open>the empty pattern\<close>

record regexp =
  pattern :: rx
  ignoreCase :: bool

definition rx_lits :: "nat list \<Rightarrow> rx" where
  "rx_lits cs = foldr (\<lambda>c r. RSeq (RLit c) r) cs REmpty"

definition buildTriggerPattern :: "jstring \<Rightarrow> regexp" where
  "buildTriggerPattern name =
     (let escaped = escape_regex name
      in \<lparr> pattern = RSeq (RAlt RStart RSpace)
                         (RSeq (RLit 64) (RSeq (rx_lits (pattern_atoms escaped)) RWordB)),
           ignoreCase = True \<rparr>)"

text \<open>
  ECMAScript \<open>Canonicalize\<close> for a pattern with the \<open>i\<close> flag and without the \<open>u\<close>
  flag: a code unit is compared by its upper-case form, except that a non-ASCII code
  unit is never identified with an ASCII one. The upper-case mapping of the non-ASCII
  code units is the Unicode table of the engine, a parameter \<open>uc\<close> here.
\<close>

definition canonicalize :: "(nat \<Rightarrow> nat) \<Rightarrow> nat \<Rightarrow> nat" where
  "canonicalize uc c =
     (if c < 128 then (if 97 \<le> c \<and> c \<le> 122 then c - 32 else c)
      else (let u = uc c in if u < 128 then c else u))"

definition is_word_at :: "jstring \<Rightarrow> int \<Rightarrow> bool" where
  "is_word_at s i \<longleftrightarrow> 0 \<le> i \<and> i < int (length s) \<and> is_word (s ! nat i)"

definition word_boundary :: "jstring \<Rightarrow> nat \<Rightarrow> bool" where
  "word_boundary s i \<longleftrightarrow> is_word_at s (int i - 1) \<noteq> is_word_at s (int i)"

text \<open>
  The backtracking matcher: \<open>rx_ends uc ic r s i\<close> lists the end positions of the
  matches of \<open>r\<close> in \<open>s\<close> that start at position \<open>i\<close>, in the order the engine tries
  them. \<open>regexp_test\<close> is \<open>RegExp.prototype.test\<close> for a pattern without the \<open>g\<close> and
  \<open>y\<close> flags: some start position has a match.
\<close>

fun rx_ends :: "(nat \<Rightarrow> nat) \<Rightarrow> bool \<Rightarrow> rx \<Rightarrow> jstring \<Rightarrow> nat \<Rightarrow> nat list" where
  "rx_ends uc ic RStart s i = (if i = 0 then [i] else [])"
| "rx_ends uc ic RSpace s i = (if i < length s \<and> is_space (s ! i) then [Suc i] else [])"
| "rx_ends uc ic (RLit c) s i =
     (if i < length s \<and>
         (if ic then canonicalize uc (s ! i) = canonicalize uc c else s ! i = c)
      then [Suc i] else [])"
| "rx_ends uc ic RWordB s i = (if word_boundary s i then [i] else [])"
| "rx_ends uc ic (RAlt a b) s i = rx_ends uc ic a s i @ rx_ends uc ic b s i"
| "rx_ends uc ic (RSeq a b) s i = concat (map (rx_ends uc ic b s) (rx_ends uc ic a s i))"
| "rx_ends uc ic REmpty s i = [i]"

definition regexp_test :: "(nat \<Rightarrow> nat) \<Rightarrow> regexp \<Rightarrow> jstring \<Rightarrow> bool" where
  "regexp_test uc re s \<longleftrightarrow>
     list_ex (\<lambda>i. rx_ends uc (ignoreCase re) (pattern re) s i \<noteq> []) [0 ..< Suc (length s)]"

section \<open>Shared types (types.ts)\<close>

datatype channel_type = Browser | Telegram

record inbound_message =
  msg_id :: jstring
  groupId :: jstring
  sender :: jstring
  content :: jstring
  timestamp :: int
  channel :: channel_type

record stored_message = inbound_message +
  isFromMe :: bool
  isTrigger :: bool

text \<open>
  A JavaScript number: every finite double is \<open>m * 2^k\<close> for two integers, written
  \<open>Double m k\<close>, and there are negative zero, NaN and the two infinities. The source
  tests a number for truthiness, compares it with zero, and writes the literals 30 and
  120; it does no arithmetic of its own.
\<close>

datatype jnumber = Double int int | NegZero | NaN | PosInf | NegInf

definition num_truthy :: "jnumber \<Rightarrow> bool" where
  "num_truthy n = (case n of Double m k \<Rightarrow> m \<noteq> 0 | NegZero \<Rightarrow> False | NaN \<Rightarrow> False | _ \<Rightarrow> True)"

definition num_is_zero :: "jnumber \<Rightarrow> bool" where
  "num_is_zero n = (case n of Double m k \<Rightarrow> m = 0 | NegZero \<Rightarrow> True | _ \<Rightarrow> False)"

definition num_lit :: "nat \<Rightarrow> jnumber" where
  "num_lit n = Double (int n) 0"

text \<open>
  A value of type \<open>unknown\<close>, as far as the source inspects one: the fields of a tool's
  input and the result of the expression-evaluation tool. An object or array is opaque
  (\<open>JObj\<close> carries an identifying text); what the engine does with one, and how it
  renders a number as text, is a parameter of the worker's environment. A function, a
  symbol and a bigint, which only \<open>eval\<close> could return, are left out.
\<close>

datatype jval = JUndef | JNull | JBool bool | JNum jnumber | JStr jstring | JObj jstring

type_synonym tool_input = "(jstring \<times> jval) list"

text \<open>
  The task an agent creates holds \<open>input.schedule\<close> and \<open>input.prompt\<close> as they
  are (the casts \<open>as string\<close> are erased at run time).
\<close>

record task =
  task_id :: jstring
  task_groupId :: jstring
  schedule :: jval
  prompt :: jval
  enabled :: bool
  lastRun :: "int option"
  createdAt :: int

datatype role = User | Assistant

datatype content_block =
    TextBlock jstring
  | ToolUse jstring jstring tool_input      \<comment> \<open>id, name, input\<close>
  | ToolResult jstring jstring              \<comment> \<open>tool_use_id, content\<close>
  | OtherBlock jstring                      \<comment> \<open>a block of any other type\<close>

datatype message_content = Plain jstring | Blocks "content_block list"

record conversation_message =
  role :: role
  cm_content :: message_content

datatype provider = Anthropic | Ollama

record invoke_payload =
  p_groupId :: jstring
  p_messages :: "conversation_message list"
  p_systemPrompt :: jstring
  p_provider :: provider
  p_apiKey :: jstring
  p_ollamaUrl :: jstring
  p_model :: jstring
  p_maxTokens :: nat

datatype worker_inbound =
    Invoke invoke_payload
  | Cancel jstring
  | Compact invoke_payload

record token_usage =
  u_groupId :: jstring
  inputTokens :: nat
  outputTokens :: nat
  cacheReadTokens :: nat
  cacheCreationTokens :: nat
  contextLimit :: nat

datatype log_kind = ApiCall | ToolCall | ToolResultLog | TextLog | InfoLog

record thinking_log_entry =
  l_groupId :: jstring
  kind :: log_kind
  l_timestamp :: int
  label :: jstring
  detail :: jstring

datatype worker_outbound =
    Response jstring jstring                \<comment> \<open>groupId, text\<close>
  | Error jstring jstring                   \<comment> \<open>groupId, error\<close>
  | Typing jstring
  | ToolActivity jstring jstring jstring    \<comment> \<open>groupId, tool, status\<close>
  | ThinkingLog thinking_log_entry
  | CompactDone jstring jstring             \<comment> \<open>groupId, summary\<close>
  | TokenUsage token_usage
  | TaskCreated task

datatype orchestrator_state = Idle | Thinking | Responding

section \<open>The coordinator (orchestrator.ts)\<close>

subsection \<open>State\<close>

text \<open>What the coordinator emits on its event bus, and the calls it makes to the router.\<close>

datatype ui_event =
    EvStateChange orchestrator_state
  | EvMessage stored_message
  | EvTyping jstring bool
  | EvToolActivity jstring jstring jstring
  | EvThinkingLog thinking_log_entry
  | EvError jstring jstring
  | EvSessionReset jstring
  | EvContextCompacted jstring jstring
  | EvTokenUsage token_usage

datatype router_call = RouterSend jstring jstring | RouterSetTyping jstring bool

text \<open>
  An \<open>async\<close> function of the coordinator that is suspended at an \<open>await\<close>. \<open>origin\<close>
  records who called \<open>invokeAgent\<close>: \<open>processQueue\<close> (which awaits it inside its
  \<open>try\<close>) or the task scheduler's callback (which calls it directly).
\<close>

datatype origin = FromQueue | FromScheduler

datatype continuation =
    KEnqueueSave stored_message
      \<comment> \<open>\<open>enqueue\<close> at \<open>await saveMessage(stored)\<close>\<close>
  | KInvokeSave origin jstring stored_message
      \<comment> \<open>\<open>invokeAgent\<close> at \<open>await saveMessage(stored)\<close> (scheduled-task branch)\<close>
  | KInvokeMemory origin jstring
      \<comment> \<open>\<open>invokeAgent\<close> at \<open>await readGroupFile(groupId, 'CLAUDE.md')\<close>\<close>
  | KInvokeBuild origin jstring jstring
      \<comment> \<open>\<open>invokeAgent\<close> at \<open>await buildConversationMessages(...)\<close>; group, memory\<close>
  | KDeliverSave jstring jstring stored_message
      \<comment> \<open>\<open>deliverResponse\<close> at \<open>await saveMessage(stored)\<close>; group, text\<close>
  | KDeliverSend jstring stored_message
      \<comment> \<open>\<open>deliverResponse\<close> at \<open>await this.router.send(groupId, text)\<close>\<close>
  | KCompactClear jstring jstring
      \<comment> \<open>\<open>handleCompactDone\<close> at \<open>await clearGroupMessages(groupId)\<close>; group, summary\<close>
  | KCompactSave jstring jstring stored_message
      \<comment> \<open>\<open>handleCompactDone\<close> at \<open>await saveMessage(stored)\<close>\<close>
  | KTaskSave task
      \<comment> \<open>\<open>handleWorkerMessage\<close> at \<open>await saveTask(task)\<close>, inside its \<open>try\<close>\<close>
  | KContextMemory jstring
      \<comment> \<open>\<open>compactContext\<close> at \<open>await readGroupFile(groupId, 'CLAUDE.md')\<close>\<close>
  | KContextBuild jstring jstring
      \<comment> \<open>\<open>compactContext\<close> at \<open>await buildConversationMessages(...)\<close>; group, memory\<close>
  | KSessionClear jstring
      \<comment> \<open>\<open>newSession\<close> at \<open>await clearGroupMessages(groupId)\<close>\<close>

text \<open>
  The fields of the class \<open>Orchestrator\<close>, followed by the collaborators it drives (the
  message store, the task store, the event bus, the worker's inbox, the router, the
  notification chime, the clock and identifier source), the suspended calls, and five
  history fields: \<open>arrived\<close> (every message pushed to the queue, in push order),
  \<open>dequeued\<close> (every message shifted from it, with \<open>True\<close> when it was handed to
  \<open>invokeAgent\<close> and \<open>False\<close> when it was dropped for lack of configuration),
  \<open>calls\<close> (every call of \<open>invokeAgent\<close> with its caller and its two arguments, written
  by \<open>invokeAgent\<close> itself), \<open>dispatched\<close> (caller and group of every \<open>invoke\<close>
  envelope, written where the envelope is posted) and \<open>handled\<close> (the number of
  \<open>response\<close> and \<open>error\<close> envelopes received).
\<close>

record orchestrator =
  state :: orchestrator_state
  triggerPattern :: regexp
  assistantName :: jstring
  provider :: provider
  ollamaUrl :: jstring
  apiKey :: jstring
  model :: jstring
  maxTokens :: nat
  messageQueue :: "inbound_message list"
  processing :: bool
  pendingScheduledTasks :: "jstring set"
  db :: "stored_message list"
  task_store :: "task list"
  emitted :: "ui_event list"
  posted :: "worker_inbound list"
  routed :: "router_call list"
  chimes :: nat
  ticks :: nat
  suspended :: "continuation list"
  arrived :: "inbound_message list"
  dequeued :: "(inbound_message \<times> bool) list"
  calls :: "(origin \<times> jstring \<times> jstring) list"
  dispatched :: "(origin \<times> jstring) list"
  handled :: nat

text \<open>
  What the model takes from outside the coordinator: the engine's upper-case table
  (see \<open>canonicalize\<close>), the values \<open>ulid()\<close> and \<open>Date.now()\<close> return at each call, and
  the conversion of a stored message to the wire format.
\<close>

record env =
  uc :: "nat \<Rightarrow> nat"
  ulid_at :: "nat \<Rightarrow> jstring"
  now_at :: "nat \<Rightarrow> int"
  to_conversation :: "stored_message \<Rightarrow> conversation_message"

definition ulid :: "env \<Rightarrow> orchestrator \<Rightarrow> jstring \<times> orchestrator" where
  "ulid e s = (ulid_at e (ticks s), s\<lparr>ticks := Suc (ticks s)\<rparr>)"

definition date_now :: "env \<Rightarrow> orchestrator \<Rightarrow> int \<times> orchestrator" where
  "date_now e s = (now_at e (ticks s), s\<lparr>ticks := Suc (ticks s)\<rparr>)"

subsection \<open>The message store (db.ts)\<close>

text \<open>
  Modelled from the spec: \<open>db.ts\<close> is not among the sources. Section 3 of the
  specification describes the store as an append-only log per group, ordered by
  timestamp, from whose last N messages the conversation window is built; section 6
  lists \<open>saveMessage(msg)\<close>, \<open>loadRecentMessages(groupId, limit) -> ordered sequence\<close>,
  \<open>clearGroupMessages(groupId)\<close> and \<open>saveTask(task)\<close>. The functions below are what a
  call does to the store when its promise is fulfilled; a call whose promise is rejected
  leaves the store as it was (see \<open>resume\<close>).
\<close>

definition saveMessage :: "stored_message \<Rightarrow> orchestrator \<Rightarrow> orchestrator" where
  "saveMessage m s = s\<lparr>db := db s @ [m]\<rparr>"

definition clearGroupMessages :: "jstring \<Rightarrow> orchestrator \<Rightarrow> orchestrator" where
  "clearGroupMessages g s = s\<lparr>db := filter (\<lambda>m. groupId m \<noteq> g) (db s)\<rparr>"

definition getRecentMessages :: "jstring \<Rightarrow> nat \<Rightarrow> stored_message list \<Rightarrow> stored_message list" where
  "getRecentMessages g limit store =
     (let ms = sort_key timestamp (filter (\<lambda>m. groupId m = g) store)
      in drop (length ms - limit) ms)"

definition buildConversationMessages ::
    "env \<Rightarrow> jstring \<Rightarrow> nat \<Rightarrow> stored_message list \<Rightarrow> conversation_message list" where
  "buildConversationMessages e g limit store = map (to_conversation e) (getRecentMessages g limit store)"

definition saveTask :: "task \<Rightarrow> orchestrator \<Rightarrow> orchestrator" where
  "saveTask t s = s\<lparr>task_store := task_store s @ [t]\<rparr>"

subsection \<open>Event bus, router, worker inbox\<close>

definition emit :: "ui_event \<Rightarrow> orchestrator \<Rightarrow> orchestrator" where
  "emit ev s = s\<lparr>emitted := emitted s @ [ev]\<rparr>"

definition router_send :: "jstring \<Rightarrow> jstring \<Rightarrow> orchestrator \<Rightarrow> orchestrator" where
  "router_send g text s = s\<lparr>routed := routed s @ [RouterSend g text]\<rparr>"

definition router_setTyping :: "jstring \<Rightarrow> bool \<Rightarrow> orchestrator \<Rightarrow> orchestrator" where
  "router_setTyping g b s = s\<lparr>routed := routed s @ [RouterSetTyping g b]\<rparr>"

definition postMessage :: "worker_inbound \<Rightarrow> orchestrator \<Rightarrow> orchestrator" where
  "postMessage m s = s\<lparr>posted := posted s @ [m]\<rparr>"

definition playNotificationChime :: "orchestrator \<Rightarrow> orchestrator" where
  "playNotificationChime s = s\<lparr>chimes := Suc (chimes s)\<rparr>"

definition suspend :: "continuation \<Rightarrow> orchestrator \<Rightarrow> orchestrator" where
  "suspend k s = s\<lparr>suspended := suspended s @ [k]\<rparr>"

subsection \<open>Configuration and state\<close>

definition isConfigured :: "orchestrator \<Rightarrow> bool" where
  "isConfigured s \<longleftrightarrow>
     (if provider s = Ollama then length (trim (ollamaUrl s)) > 0 else length (apiKey s) > 0)"

definition setState :: "orchestrator_state \<Rightarrow> orchestrator \<Rightarrow> orchestrator" where
  "setState st s = emit (EvStateChange st) (s\<lparr>state := st\<rparr>)"

definition channel_of :: "jstring \<Rightarrow> channel_type" where
  "channel_of g = (if startsWith g (js ''tg:'') then Telegram else Browser)"

subsection \<open>enqueue, processQueue, invokeAgent\<close>

fun join :: "jstring \<Rightarrow> jstring list \<Rightarrow> jstring" where
  "join sep [] = []"
| "join sep [x] = x"
| "join sep (x # y # ys) = x @ sep @ join sep (y # ys)"

definition buildSystemPrompt :: "jstring \<Rightarrow> jstring \<Rightarrow> jstring" where
  "buildSystemPrompt name memory =
     (let parts =
        [js ''You are '' @ name @ js '', a personal AI assistant running in the user'' @ [39] @
           js ''s browser.'',
         [],
         js ''You have access to the following tools:'',
         js ''- **bash**: Execute commands in a sandboxed Linux VM (Alpine). Use for scripts, text processing, package installation.'',
         js ''- **javascript**: Execute JavaScript code. Lighter than bash '' @ [8212] @
           js '' no VM boot needed. Use for calculations, data transforms.'',
         js ''- **read_file** / **write_file** / **list_files**: Manage files in the group workspace (persisted in browser storage).'',
         js ''- **fetch_url**: Make HTTP requests (subject to CORS).'',
         js ''- **update_memory**: Persist important context to CLAUDE.md '' @ [8212] @
           js '' loaded on every conversation.'',
         js ''- **create_task**: Schedule recurring tasks with cron expressions.'',
         [],
         js ''Guidelines:'',
         js ''- Be concise and direct.'',
         js ''- Use tools proactively when they help answer the question.'',
         js ''- Update memory when you learn important preferences or context.'',
         js ''- For scheduled tasks, confirm the schedule with the user.'',
         js ''- Strip <internal> tags from your responses '' @ [8212] @
           js '' they are for your internal reasoning only.''];
          parts = (if memory \<noteq> [] then parts @ [[], js ''## Persistent Memory'', [], memory]
                   else parts)
      in join [10] parts)"

text \<open>
  \<open>enqueue\<close> up to its \<open>await saveMessage(stored)\<close>. The trigger check and the push
  happen before the first suspension, so the queue holds the triggered messages in the
  order of the calls of \<open>enqueue\<close>.
\<close>

definition enqueue :: "env \<Rightarrow> inbound_message \<Rightarrow> orchestrator \<Rightarrow> orchestrator" where
  "enqueue e msg s =
     (let stored = \<lparr> msg_id = msg_id msg, groupId = groupId msg, sender = sender msg,
                      content = content msg, timestamp = timestamp msg, channel = channel msg,
                      isFromMe = False, isTrigger = False \<rparr>;
          isBrowserMain = (groupId msg = DEFAULT_GROUP_ID);
          hasTrigger = regexp_test (uc e) (triggerPattern s) (trim (content msg))
      in if isBrowserMain \<or> hasTrigger
         then suspend (KEnqueueSave (stored\<lparr>isTrigger := True\<rparr>))
                (s\<lparr>messageQueue := messageQueue s @ [msg], arrived := arrived s @ [msg]\<rparr>)
         else suspend (KEnqueueSave stored) s)"

text \<open>
  \<open>invokeAgent\<close> up to its first \<open>await\<close>. The first line records the call in the
  history field \<open>calls\<close>.
\<close>

definition invokeAgent :: "env \<Rightarrow> origin \<Rightarrow> jstring \<Rightarrow> jstring \<Rightarrow> orchestrator \<Rightarrow> orchestrator" where
  "invokeAgent e orig g triggerContent s =
     (let s = s\<lparr>calls := calls s @ [(orig, g, triggerContent)]\<rparr>;
          s = setState Thinking s;
          s = router_setTyping g True s;
          s = emit (EvTyping g True) s
      in if startsWith triggerContent (js ''[SCHEDULED TASK]'')
         then (let s = s\<lparr>pendingScheduledTasks := insert g (pendingScheduledTasks s)\<rparr>;
                   (i, s) = ulid e s;
                   (t, s) = date_now e s;
                   stored = \<lparr> msg_id = i, groupId = g, sender = js ''Scheduler'',
                              content = triggerContent, timestamp = t, channel = channel_of g,
                              isFromMe = False, isTrigger = True \<rparr>
               in suspend (KInvokeSave orig g stored) s)
         else suspend (KInvokeMemory orig g) s)"

text \<open>
  \<open>processQueue\<close> up to its \<open>await this.invokeAgent(...)\<close>, and the \<open>finally\<close> block
  that runs when that call has settled, whether it returned or threw (the \<open>catch\<close> only
  logs to the console).
\<close>

definition processQueue :: "env \<Rightarrow> orchestrator \<Rightarrow> orchestrator" where
  "processQueue e s =
     (if processing s then s
      else case messageQueue s of
        [] \<Rightarrow> s
      | msg # rest \<Rightarrow>
          if \<not> isConfigured s
          then emit (EvError (groupId msg)
                  (if provider s = Anthropic
                   then js ''API key not configured. Go to Settings to add your Anthropic API key.''
                   else js ''Ollama URL not configured. Go to Settings to configure your Ollama Host.''))
                 (s\<lparr>messageQueue := rest, dequeued := dequeued s @ [(msg, False)]\<rparr>)
          else invokeAgent e FromQueue (groupId msg) (content msg)
                 (s\<lparr>processing := True, messageQueue := rest,
                    dequeued := dequeued s @ [(msg, True)]\<rparr>))"

definition processQueue_finally :: "env \<Rightarrow> orchestrator \<Rightarrow> orchestrator" where
  "processQueue_finally e s =
     (let s = s\<lparr>processing := False\<rparr>
      in if length (messageQueue s) > 0 then processQueue e s else s)"

definition invokeAgent_settled :: "env \<Rightarrow> origin \<Rightarrow> orchestrator \<Rightarrow> orchestrator" where
  "invokeAgent_settled e orig s =
     (case orig of FromQueue \<Rightarrow> processQueue_finally e s | FromScheduler \<Rightarrow> s)"

definition invoke_envelope :: "env \<Rightarrow> jstring \<Rightarrow> jstring \<Rightarrow> orchestrator \<Rightarrow> worker_inbound" where
  "invoke_envelope e g memory s =
     (let messages = buildConversationMessages e g CONTEXT_WINDOW_SIZE (db s);
          systemPrompt = buildSystemPrompt (assistantName s) memory
      in Invoke \<lparr> p_groupId = g, p_messages = messages, p_systemPrompt = systemPrompt,
                  p_provider = provider s, p_apiKey = apiKey s, p_ollamaUrl = ollamaUrl s,
                  p_model = model s, p_maxTokens = maxTokens s \<rparr>)"

text \<open>
  How an awaited promise settles. The value of a fulfilled promise matters only for
  \<open>readGroupFile\<close> (the memory text). A rejection is an exception thrown at the
  \<open>await\<close>.
\<close>

datatype settle = Fulfil jstring | Reject

subsection \<open>The worker's envelopes: handleWorkerMessage, deliverResponse, handleCompactDone\<close>

text \<open>
  \<open>deliverResponse\<close> up to \<open>await saveMessage(stored)\<close>; from there, when the message
  is saved, up to \<open>await this.router.send(groupId, text)\<close>; and from there, when the
  router has sent the text, to the end.
\<close>

definition deliverResponse :: "env \<Rightarrow> jstring \<Rightarrow> jstring \<Rightarrow> orchestrator \<Rightarrow> orchestrator" where
  "deliverResponse e g text s =
     (let (i, s) = ulid e s;
          (t, s) = date_now e s;
          stored = \<lparr> msg_id = i, groupId = g, sender = assistantName s, content = text,
                     timestamp = t, channel = channel_of g, isFromMe = True, isTrigger = False \<rparr>
      in suspend (KDeliverSave g text stored) s)"

definition deliverResponse_saved :: "jstring \<Rightarrow> jstring \<Rightarrow> stored_message \<Rightarrow> orchestrator \<Rightarrow> orchestrator" where
  "deliverResponse_saved g text stored s =
     suspend (KDeliverSend g stored) (router_send g text (saveMessage stored s))"

definition deliverResponse_sent :: "jstring \<Rightarrow> stored_message \<Rightarrow> orchestrator \<Rightarrow> orchestrator" where
  "deliverResponse_sent g stored s =
     (let s = (if g \<in> pendingScheduledTasks s
               then playNotificationChime
                      (s\<lparr>pendingScheduledTasks := pendingScheduledTasks s - {g}\<rparr>)
               else s);
          s = emit (EvMessage stored) s;
          s = emit (EvTyping g False) s;
          s = setState Idle s
      in router_setTyping g False s)"

text \<open>The heading of a compaction summary: U+1F4DD (a surrogate pair), then the text.\<close>

definition compacted_heading :: jstring where
  "compacted_heading = [55357, 56541] @ js '' **Context Compacted**'' @ [10, 10]"

text \<open>
  \<open>handleCompactDone\<close> up to \<open>await clearGroupMessages(groupId)\<close>; from there, when the
  group is cleared, up to \<open>await saveMessage(stored)\<close>; and from there to the end.
\<close>

definition handleCompactDone :: "env \<Rightarrow> jstring \<Rightarrow> jstring \<Rightarrow> orchestrator \<Rightarrow> orchestrator" where
  "handleCompactDone e g summary s = suspend (KCompactClear g summary) s"

definition handleCompactDone_cleared :: "env \<Rightarrow> jstring \<Rightarrow> jstring \<Rightarrow> orchestrator \<Rightarrow> orchestrator" where
  "handleCompactDone_cleared e g summary s =
     (let s = clearGroupMessages g s;
          (i, s) = ulid e s;
          (t, s) = date_now e s;
          stored = \<lparr> msg_id = i, groupId = g, sender = assistantName s,
                     content = compacted_heading @ summary,
                     timestamp = t, channel = channel_of g, isFromMe = True, isTrigger = False \<rparr>
      in suspend (KCompactSave g summary stored) s)"

definition handleCompactDone_saved :: "jstring \<Rightarrow> jstring \<Rightarrow> stored_message \<Rightarrow> orchestrator \<Rightarrow> orchestrator" where
  "handleCompactDone_saved g summary stored s =
     (let s = saveMessage stored s;
          s = emit (EvContextCompacted g summary) s;
          s = emit (EvTyping g False) s
      in setState Idle s)"

text \<open>The prefix of a rendered error: U+26A0 U+FE0F, then \<open>Error:\<close>.\<close>

definition error_reply :: "jstring \<Rightarrow> jstring" where
  "error_reply err = [9888, 65039] @ js '' Error: '' @ err"

text \<open>\<open>handleWorkerMessage\<close> up to the first \<open>await\<close> of the branch taken.\<close>

fun handleWorkerMessage :: "env \<Rightarrow> worker_outbound \<Rightarrow> orchestrator \<Rightarrow> orchestrator" where
  "handleWorkerMessage e (Response g text) s = deliverResponse e g text s"
| "handleWorkerMessage e (TaskCreated t) s = suspend (KTaskSave t) s"
| "handleWorkerMessage e (Error g err) s = deliverResponse e g (error_reply err) s"
| "handleWorkerMessage e (Typing g) s = emit (EvTyping g True) (router_setTyping g True s)"
| "handleWorkerMessage e (ToolActivity g tool st) s = emit (EvToolActivity g tool st) s"
| "handleWorkerMessage e (ThinkingLog entry) s = emit (EvThinkingLog entry) s"
| "handleWorkerMessage e (CompactDone g summary) s = handleCompactDone e g summary s"
| "handleWorkerMessage e (TokenUsage u) s = emit (EvTokenUsage u) s"

subsection \<open>The other entry points\<close>

definition compact_envelope :: "env \<Rightarrow> jstring \<Rightarrow> jstring \<Rightarrow> orchestrator \<Rightarrow> worker_inbound" where
  "compact_envelope e g memory s =
     (let messages = buildConversationMessages e g CONTEXT_WINDOW_SIZE (db s);
          systemPrompt = buildSystemPrompt (assistantName s) memory
      in Compact \<lparr> p_groupId = g, p_messages = messages, p_systemPrompt = systemPrompt,
                   p_provider = provider s, p_apiKey = apiKey s, p_ollamaUrl = ollamaUrl s,
                   p_model = model s, p_maxTokens = maxTokens s \<rparr>)"

text \<open>\<open>compactContext\<close> up to \<open>await readGroupFile(groupId, 'CLAUDE.md')\<close>.\<close>

definition compactContext :: "env \<Rightarrow> jstring \<Rightarrow> orchestrator \<Rightarrow> orchestrator" where
  "compactContext e g s =
     (if \<not> isConfigured s
      then emit (EvError g
             (if provider s = Anthropic
              then js ''API key not configured. Cannot compact context.''
              else js ''Ollama URL not configured. Cannot compact context.'')) s
      else if state s \<noteq> Idle
      then emit (EvError g
             (js ''Cannot compact while processing. Wait for the current response to finish.'')) s
      else (let s = setState Thinking s;
                s = emit (EvTyping g True) s
            in suspend (KContextMemory g) s))"

text \<open>\<open>newSession\<close> up to \<open>await clearGroupMessages(groupId)\<close>.\<close>

definition newSession :: "jstring \<Rightarrow> orchestrator \<Rightarrow> orchestrator" where
  "newSession g s = suspend (KSessionClear g) s"

definition setAssistantName :: "jstring \<Rightarrow> orchestrator \<Rightarrow> orchestrator" where
  "setAssistantName name s = s\<lparr>assistantName := name, triggerPattern := buildTriggerPattern name\<rparr>"

subsection \<open>Resuming a suspended call\<close>

text \<open>
  What a suspended call does when its promise settles. A rejection inside
  \<open>invokeAgent\<close> is caught for \<open>readGroupFile\<close> (memory stays empty) and otherwise
  leaves \<open>invokeAgent\<close>, so that the \<open>finally\<close> block of \<open>processQueue\<close> runs; inside
  \<open>enqueue\<close> it ends \<open>enqueue\<close> before \<open>processQueue\<close> is called. In
  \<open>handleWorkerMessage\<close> only \<open>saveTask\<close> stands inside a \<open>try\<close>; a rejection at any
  \<open>await\<close> of \<open>deliverResponse\<close> or \<open>handleCompactDone\<close> leaves the handler there, and
  the statements behind the \<open>await\<close> are not run. The same holds for
  \<open>compactContext\<close> (where \<open>readGroupFile\<close> is inside a \<open>try\<close>) and \<open>newSession\<close>.
  The line that posts the \<open>invoke\<close> envelope records it in the history field
  \<open>dispatched\<close>.
\<close>

fun resume :: "env \<Rightarrow> continuation \<Rightarrow> settle \<Rightarrow> orchestrator \<Rightarrow> orchestrator" where
  "resume e (KEnqueueSave stored) (Fulfil v) s =
     processQueue e (emit (EvMessage stored) (saveMessage stored s))"
| "resume e (KEnqueueSave stored) Reject s = s"
| "resume e (KInvokeSave orig g stored) (Fulfil v) s =
     suspend (KInvokeMemory orig g) (emit (EvMessage stored) (saveMessage stored s))"
| "resume e (KInvokeSave orig g stored) Reject s = invokeAgent_settled e orig s"
| "resume e (KInvokeMemory orig g) st s =
     suspend (KInvokeBuild orig g (case st of Fulfil text \<Rightarrow> text | Reject \<Rightarrow> [])) s"
| "resume e (KInvokeBuild orig g memory) (Fulfil v) s =
     invokeAgent_settled e orig
       (postMessage (invoke_envelope e g memory s)
          (s\<lparr>dispatched := dispatched s @ [(orig, g)]\<rparr>))"
| "resume e (KInvokeBuild orig g memory) Reject s = invokeAgent_settled e orig s"
| "resume e (KDeliverSave g text stored) (Fulfil v) s = deliverResponse_saved g text stored s"
| "resume e (KDeliverSave g text stored) Reject s = s"
| "resume e (KDeliverSend g stored) (Fulfil v) s = deliverResponse_sent g stored s"
| "resume e (KDeliverSend g stored) Reject s = s"
| "resume e (KCompactClear g summary) (Fulfil v) s = handleCompactDone_cleared e g summary s"
| "resume e (KCompactClear g summary) Reject s = s"
| "resume e (KCompactSave g summary stored) (Fulfil v) s = handleCompactDone_saved g summary stored s"
| "resume e (KCompactSave g summary stored) Reject s = s"
| "resume e (KTaskSave t) (Fulfil v) s = saveTask t s"
| "resume e (KTaskSave t) Reject s = s"
| "resume e (KContextMemory g) st s =
     suspend (KContextBuild g (case st of Fulfil text \<Rightarrow> text | Reject \<Rightarrow> [])) s"
| "resume e (KContextBuild g memory) (Fulfil v) s = postMessage (compact_envelope e g memory s) s"
| "resume e (KContextBuild g memory) Reject s = s"
| "resume e (KSessionClear g) (Fulfil v) s = emit (EvSessionReset g) (clearGroupMessages g s)"
| "resume e (KSessionClear g) Reject s = s"

subsection \<open>The coordinator as an event-driven system\<close>

text \<open>
  Everything that can happen to the coordinator between two turns of the event loop:
  a channel delivers a message (\<open>Arrive\<close>), a suspended call resumes because its promise
  settled (\<open>Resume\<close>, by position in \<open>suspended\<close>), the task scheduler calls
  \<open>invokeAgent\<close> (\<open>SchedulerFire\<close>), the worker posts an envelope (\<open>WorkerMessage\<close>), or
  the user interface calls one of the public methods. A schedule is a list of events;
  the interleavings of the coordinator are its schedules. Every \<open>await\<close> of the
  coordinator on the message store, the task store, the group workspace and the router
  is an interleaving point; the setters' \<open>await\<close>s on the configuration store, which
  come behind their last assignment, are not modelled.
\<close>

datatype event =
    Arrive inbound_message
  | Resume nat settle
  | SchedulerFire jstring jstring
  | WorkerMessage worker_outbound
  | CompactContext jstring
  | NewSession jstring
  | SetProvider provider
  | SetOllamaUrl jstring
  | SetApiKey jstring
  | SetModel jstring
  | SetAssistantName jstring

definition is_completion :: "worker_outbound \<Rightarrow> bool" where
  "is_completion m = (case m of Response g t \<Rightarrow> True | Error g t \<Rightarrow> True | _ \<Rightarrow> False)"

fun step :: "env \<Rightarrow> event \<Rightarrow> orchestrator \<Rightarrow> orchestrator" where
  "step e (Arrive msg) s = enqueue e msg s"
| "step e (Resume i st) s =
     (if i < length (suspended s)
      then resume e (suspended s ! i) st
             (s\<lparr>suspended := take i (suspended s) @ drop (Suc i) (suspended s)\<rparr>)
      else s)"
| "step e (SchedulerFire g p) s = invokeAgent e FromScheduler g p s"
| "step e (WorkerMessage m) s =
     handleWorkerMessage e m (if is_completion m then s\<lparr>handled := Suc (handled s)\<rparr> else s)"
| "step e (CompactContext g) s = compactContext e g s"
| "step e (NewSession g) s = newSession g s"
| "step e (SetProvider v) s = s\<lparr>provider := v\<rparr>"
| "step e (SetOllamaUrl v) s = s\<lparr>ollamaUrl := v\<rparr>"
| "step e (SetApiKey v) s = s\<lparr>apiKey := v\<rparr>"
| "step e (SetModel v) s = s\<lparr>model := v\<rparr>"
| "step e (SetAssistantName v) s = setAssistantName v s"

definition run :: "env \<Rightarrow> event list \<Rightarrow> orchestrator \<Rightarrow> orchestrator" where
  "run e evs s = foldl (\<lambda>s ev. step e ev s) s evs"

text \<open>
  The coordinator after \<open>init\<close>, for a loaded configuration: idle, nothing queued,
  nothing suspended, not processing.
\<close>

definition init :: "jstring \<Rightarrow> provider \<Rightarrow> jstring \<Rightarrow> jstring \<Rightarrow> jstring \<Rightarrow> nat \<Rightarrow>
    stored_message list \<Rightarrow> orchestrator" where
  "init name prov url key mdl maxTok store =
     \<lparr> state = Idle, triggerPattern = buildTriggerPattern name, assistantName = name,
       provider = prov, ollamaUrl = url, apiKey = key, model = mdl, maxTokens = maxTok,
       messageQueue = [], processing = False, pendingScheduledTasks = {},
       db = store, task_store = [], emitted = [], posted = [], routed = [], chimes = 0,
       ticks = 0, suspended = [], arrived = [], dequeued = [], calls = [], dispatched = [],
       handled = 0 \<rparr>"

text \<open>
  The messages handed to \<open>invokeAgent\<close> by \<open>processQueue\<close>, in the order of the calls,
  and the calls of \<open>invokeAgent\<close> made by \<open>processQueue\<close> that have not settled yet.
\<close>

definition invoked :: "orchestrator \<Rightarrow> inbound_message list" where
  "invoked s = map fst (filter snd (dequeued s))"

fun from_queue :: "continuation \<Rightarrow> bool" where
  "from_queue (KInvokeSave orig g m) = (orig = FromQueue)"
| "from_queue (KInvokeMemory orig g) = (orig = FromQueue)"
| "from_queue (KInvokeBuild orig g memory) = (orig = FromQueue)"
| "from_queue k = False"

definition dispatching :: "orchestrator \<Rightarrow> nat" where
  "dispatching s = length (filter from_queue (suspended s))"

text \<open>
  The invocations that the worker has been sent and has not answered: every \<open>invoke\<close>
  envelope posted starts one tool-use loop in the worker, and each loop ends by posting
  one \<open>response\<close> or \<open>error\<close> envelope.
\<close>

fun is_invoke :: "worker_inbound \<Rightarrow> bool" where
  "is_invoke (Invoke p) = True"
| "is_invoke (Cancel g) = False"
| "is_invoke (Compact p) = False"

definition in_flight :: "orchestrator \<Rightarrow> int" where
  "in_flight s = int (length (filter is_invoke (posted s))) - int (handled s)"

section \<open>The agent worker (agent-worker.ts)\<close>

subsection \<open>Exceptions, the backend's replies, the tools' implementations\<close>

text \<open>
  A thrown value: an \<open>Error\<close> with its message, or any other value with its
  \<open>String(...)\<close> rendering. \<open>exn_message\<close> is the idiom
  \<open>err instanceof Error ? err.message : String(err)\<close>.
\<close>

datatype exn = JsError jstring | JsThrown jstring

definition exn_message :: "exn \<Rightarrow> jstring" where
  "exn_message x = (case x of JsError m \<Rightarrow> m | JsThrown v \<Rightarrow> v)"

text \<open>
  What \<open>fetch\<close> and the reading of its body come to: an exception (the request, or
  \<open>res.text()\<close>, or \<open>res.json()\<close> rejected), a response whose \<open>ok\<close> is false with its
  status and body text, or a response whose \<open>ok\<close> is true with its parsed body.
\<close>

datatype 'r reply = FetchThrew exn | HttpNotOk nat jstring | HttpOk 'r

record a_usage =
  input_tokens :: "nat option"
  output_tokens :: "nat option"
  cache_read_input_tokens :: "nat option"
  cache_creation_input_tokens :: "nat option"

record a_result =
  a_content :: "content_block list"
  stop_reason :: jstring
  a_usage :: "a_usage option"

record a_request =
  a_model :: jstring
  a_max_tokens :: nat
  a_system :: jstring
  a_messages :: "conversation_message list"

record o_tool_call =
  tc_id :: jstring
  fn_name :: jstring
  fn_arguments :: "jstring option"

record o_message =
  o_role :: jstring
  o_content :: "jstring option"
  tool_calls :: "o_tool_call list option"
  tool_call_id :: "jstring option"
  o_name :: "jstring option"

record o_choice =
  message :: o_message
  finish_reason :: jstring

record o_usage =
  prompt_tokens :: "nat option"
  completion_tokens :: "nat option"

record o_result =
  choices :: "o_choice list"
  o_usage :: "o_usage option"

record o_request =
  o_url :: jstring
  o_model :: jstring
  o_messages :: "o_message list"
  o_max_tokens :: nat

record shell_result =
  stdout :: jstring
  stderr :: jstring
  exitCode :: jnumber

record fetch_response =
  f_status :: nat
  f_contentType :: "jstring option"
  f_text :: jstring

text \<open>
  The argument \<open>input\<close> of \<open>executeTool\<close>. From the Anthropic backend it is the
  \<open>input\<close> object of a \<open>tool_use\<close> block; from the Ollama backend it is whatever
  \<open>JSON.parse\<close> made of the arguments text: an object, \<open>null\<close>, or a value none of
  whose properties has a name that a tool reads (an array, a string, a number, a boolean).
\<close>

datatype tool_arg = ArgObject tool_input | ArgNull | ArgOther

text \<open>
  Everything the worker calls that is not in \<open>agent-worker.ts\<close>: the two backends, the
  shell emulator, the group workspace, \<open>fetch\<close> for the URL tool, \<open>eval\<close>, \<open>ulid\<close>,
  the clock, the JSON functions, and the engine's treatment of numbers and objects. Each
  of the first group is a function of an outside world \<open>'w\<close> that it may change; a call
  that throws returns \<open>Inl\<close>. The tools' implementations receive the fields of the
  input as they are: the casts of the source (\<open>input.path as string\<close>) are erased at
  run time.

  \<^item> \<open>num_string n\<close>: \<open>String(n)\<close>, also a number in a template.
  \<^item> \<open>math_min v n\<close>: \<open>Math.min(v, n)\<close>, which converts \<open>v\<close> to a number and throws
    when the conversion of an object does.
  \<^item> \<open>obj_json\<close>, \<open>obj_string\<close>, \<open>obj_length\<close>: for an object, \<open>JSON.stringify(o, null, 2)\<close>,
    \<open>String(o)\<close> and the rendering of \<open>o.length\<close> in a template.
  \<^item> \<open>type_error v k\<close>: the message of the engine's \<open>TypeError\<close> for reading property
    \<open>k\<close> of \<open>v\<close>, where \<open>v\<close> is \<open>undefined\<close> or \<open>null\<close>.
  \<^item> \<open>strip_html\<close> stands for the tag stripping of \<open>stripHtml\<close>, whose regular
    expressions are not interpreted.
\<close>

record 'w worker_env =
  anthropic_fetch :: "'w \<Rightarrow> a_request \<Rightarrow> a_result reply \<times> 'w"
  ollama_fetch :: "'w \<Rightarrow> o_request \<Rightarrow> o_result reply \<times> 'w"
  executeShell :: "'w \<Rightarrow> jval \<Rightarrow> jstring \<Rightarrow> jnumber \<Rightarrow> (exn + shell_result) \<times> 'w"
  readGroupFile :: "'w \<Rightarrow> jstring \<Rightarrow> jval \<Rightarrow> (exn + jstring) \<times> 'w"
  writeGroupFile :: "'w \<Rightarrow> jstring \<Rightarrow> jval \<Rightarrow> jval \<Rightarrow> (exn + unit) \<times> 'w"
  listGroupFiles :: "'w \<Rightarrow> jstring \<Rightarrow> jval \<Rightarrow> (exn + jstring list) \<times> 'w"
  fetch_url :: "'w \<Rightarrow> jval \<Rightarrow> jval \<Rightarrow> jval \<Rightarrow> jval \<Rightarrow> (exn + fetch_response) \<times> 'w"
  js_eval :: "'w \<Rightarrow> jstring \<Rightarrow> (exn + jval) \<times> 'w"
  num_string :: "jnumber \<Rightarrow> jstring"
  math_min :: "jval \<Rightarrow> jnumber \<Rightarrow> exn + jnumber"
  obj_json :: "jstring \<Rightarrow> exn + jstring"
  obj_string :: "jstring \<Rightarrow> exn + jstring"
  obj_length :: "jstring \<Rightarrow> exn + jstring"
  json_of_input :: "tool_input \<Rightarrow> jstring"
  json_of_blocks :: "content_block list \<Rightarrow> jstring"
  json_parse :: "jstring \<Rightarrow> tool_arg option"
  strip_html :: "jstring \<Rightarrow> jstring"
  type_error :: "jval \<Rightarrow> jstring \<Rightarrow> jstring"
  w_ulid :: "'w \<Rightarrow> jstring \<times> 'w"
  w_now :: "'w \<Rightarrow> int \<times> 'w"

text \<open>
  The worker's state during one invocation: the outside world, the envelopes posted to
  the coordinator so far, and a counter of the backend round trips (the calls of
  \<open>fetch\<close> on the backend's endpoint).
\<close>

record 'w wstate =
  world :: 'w
  outbox :: "worker_outbound list"
  fetches :: nat

definition call :: "('w \<Rightarrow> 'a \<times> 'w) \<Rightarrow> 'w wstate \<Rightarrow> 'a \<times> 'w wstate" where
  "call f ws = (case f (world ws) of (r, w) \<Rightarrow> (r, ws\<lparr>world := w\<rparr>))"

definition post :: "worker_outbound \<Rightarrow> 'w wstate \<Rightarrow> 'w wstate" where
  "post m ws = ws\<lparr>outbox := outbox ws @ [m]\<rparr>"

definition log :: "'w worker_env \<Rightarrow> jstring \<Rightarrow> log_kind \<Rightarrow> jstring \<Rightarrow> jstring \<Rightarrow> 'w wstate \<Rightarrow> 'w wstate" where
  "log env g k lbl det ws =
     (case call (w_now env) ws of
        (t, ws) \<Rightarrow> post (ThinkingLog \<lparr> l_groupId = g, kind = k, l_timestamp = t,
                                       label = lbl, detail = det \<rparr>) ws)"

subsection \<open>executeTool\<close>

text \<open>
  Reading a field of an input object: \<open>undefined\<close> when the object has no such field.
  \<open>str_or\<close> is \<open>x || d\<close> for an optional string of the backend's reply.
\<close>

definition raw_field :: "tool_input \<Rightarrow> jstring \<Rightarrow> jval" where
  "raw_field inp k = (case map_of inp k of Some v \<Rightarrow> v | None \<Rightarrow> JUndef)"

definition fields_of :: "tool_arg \<Rightarrow> tool_input option" where
  "fields_of a = (case a of ArgObject inp \<Rightarrow> Some inp | ArgNull \<Rightarrow> None | ArgOther \<Rightarrow> Some [])"

definition str_or :: "jstring option \<Rightarrow> jstring \<Rightarrow> jstring" where
  "str_or v d = (case v of Some s \<Rightarrow> (if s = [] then d else s) | None \<Rightarrow> d)"

text \<open>Truthiness of a value, \<open>v || d\<close>, and \<open>String(v)\<close> (also a value in a template).\<close>

definition truthy :: "jval \<Rightarrow> bool" where
  "truthy v =
     (case v of
        JUndef \<Rightarrow> False
      | JNull \<Rightarrow> False
      | JBool b \<Rightarrow> b
      | JNum n \<Rightarrow> num_truthy n
      | JStr s \<Rightarrow> s \<noteq> []
      | JObj ob \<Rightarrow> True)"

definition val_or :: "jval \<Rightarrow> jval \<Rightarrow> jval" where
  "val_or v d = (if truthy v then v else d)"

definition string_of :: "'w worker_env \<Rightarrow> jval \<Rightarrow> exn + jstring" where
  "string_of env v =
     (case v of
        JUndef \<Rightarrow> Inr (js ''undefined'')
      | JNull \<Rightarrow> Inr (js ''null'')
      | JBool b \<Rightarrow> Inr (if b then js ''true'' else js ''false'')
      | JNum n \<Rightarrow> Inr (num_string env n)
      | JStr s \<Rightarrow> Inr s
      | JObj ob \<Rightarrow> obj_string env ob)"

text \<open>The rendering of \<open>v.length\<close> in a template.\<close>

definition length_of :: "'w worker_env \<Rightarrow> jval \<Rightarrow> exn + jstring" where
  "length_of env v =
     (case v of
        JUndef \<Rightarrow> Inl (JsError (type_error env JUndef (js ''length'')))
      | JNull \<Rightarrow> Inl (JsError (type_error env JNull (js ''length'')))
      | JBool b \<Rightarrow> Inr (js ''undefined'')
      | JNum n \<Rightarrow> Inr (js ''undefined'')
      | JStr s \<Rightarrow> Inr (show_nat (length s))
      | JObj ob \<Rightarrow> obj_length env ob)"

definition str_includes :: "jstring \<Rightarrow> jstring \<Rightarrow> bool" where
  "str_includes s p \<longleftrightarrow> list_ex (\<lambda>i. take (length p) (drop i s) = p) [0 ..< Suc (length s)]"

definition trimStart :: "jstring \<Rightarrow> jstring" where
  "trimStart s = dropWhile is_space s"

text \<open>
  The body of the \<open>switch\<close>, one branch per tool in the order of the source; the result
  is \<open>Inl\<close> when an exception leaves the \<open>switch\<close>. The branches below are for an input
  whose fields can be read; \<open>run_tool\<close> adds the case of the input \<open>null\<close>. The
  \<open>javascript\<close> branch has a \<open>try\<close>/\<open>catch\<close> of its own and never throws.
\<close>

definition tool_bash :: "'w worker_env \<Rightarrow> tool_input \<Rightarrow> jstring \<Rightarrow> 'w wstate \<Rightarrow> (exn + jstring) \<times> 'w wstate" where
  "tool_bash env inp g ws =
     (case math_min env (val_or (raw_field inp (js ''timeout'')) (JNum (num_lit 30)))
             (num_lit 120) of
        Inl x \<Rightarrow> (Inl x, ws)
      | Inr timeout \<Rightarrow>
          (case call (\<lambda>w. executeShell env w (raw_field inp (js ''command'')) g timeout) ws of
             (Inl x, ws) \<Rightarrow> (Inl x, ws)
           | (Inr result, ws) \<Rightarrow>
               (let output = stdout result;
                    output = (if stderr result \<noteq> []
                              then output @ (if output \<noteq> [] then [10] else []) @ stderr result
                              else output);
                    output = (if \<not> num_is_zero (exitCode result) \<and> stderr result = []
                              then output @ [10] @ js ''[exit code: '' @
                                   num_string env (exitCode result) @ js '']''
                              else output)
                in (Inr (if output \<noteq> [] then output else js ''(no output)''), ws))))"

definition tool_read_file :: "'w worker_env \<Rightarrow> tool_input \<Rightarrow> jstring \<Rightarrow> 'w wstate \<Rightarrow> (exn + jstring) \<times> 'w wstate" where
  "tool_read_file env inp g ws =
     call (\<lambda>w. readGroupFile env w g (raw_field inp (js ''path''))) ws"

definition tool_write_file :: "'w worker_env \<Rightarrow> tool_input \<Rightarrow> jstring \<Rightarrow> 'w wstate \<Rightarrow> (exn + jstring) \<times> 'w wstate" where
  "tool_write_file env inp g ws =
     (case call (\<lambda>w. writeGroupFile env w g (raw_field inp (js ''path''))
                        (raw_field inp (js ''content''))) ws of
        (Inl x, ws) \<Rightarrow> (Inl x, ws)
      | (Inr u, ws) \<Rightarrow>
          (case length_of env (raw_field inp (js ''content'')) of
             Inl x \<Rightarrow> (Inl x, ws)
           | Inr n \<Rightarrow>
               (case string_of env (raw_field inp (js ''path'')) of
                  Inl x \<Rightarrow> (Inl x, ws)
                | Inr path \<Rightarrow> (Inr (js ''Written '' @ n @ js '' bytes to '' @ path), ws))))"

definition tool_list_files :: "'w worker_env \<Rightarrow> tool_input \<Rightarrow> jstring \<Rightarrow> 'w wstate \<Rightarrow> (exn + jstring) \<times> 'w wstate" where
  "tool_list_files env inp g ws =
     (case call (\<lambda>w. listGroupFiles env w g
                        (val_or (raw_field inp (js ''path'')) (JStr (js ''.'')))) ws of
        (Inl x, ws) \<Rightarrow> (Inl x, ws)
      | (Inr entries, ws) \<Rightarrow>
          (Inr (if length entries > 0 then join [10] entries else js ''(empty directory)''), ws))"

definition tool_fetch_url :: "'w worker_env \<Rightarrow> tool_input \<Rightarrow> jstring \<Rightarrow> 'w wstate \<Rightarrow> (exn + jstring) \<times> 'w wstate" where
  "tool_fetch_url env inp g ws =
     (case call (\<lambda>w. fetch_url env w (raw_field inp (js ''url''))
                        (val_or (raw_field inp (js ''method'')) (JStr (js ''GET'')))
                        (raw_field inp (js ''headers'')) (raw_field inp (js ''body''))) ws of
        (Inl x, ws) \<Rightarrow> (Inl x, ws)
      | (Inr fetchRes, ws) \<Rightarrow>
          (let rawText = f_text fetchRes;
               contentType = (case f_contentType fetchRes of Some c \<Rightarrow> c | None \<Rightarrow> []);
               status = js ''[HTTP '' @ show_nat (f_status fetchRes) @ js '']'' @ [10];
               body = (if str_includes contentType (js ''html'') \<or> startsWith (trimStart rawText) (js ''<'')
                       then strip_html env rawText else rawText)
           in (Inr (status @ slice0 body FETCH_MAX_RESPONSE), ws)))"

definition tool_update_memory :: "'w worker_env \<Rightarrow> tool_input \<Rightarrow> jstring \<Rightarrow> 'w wstate \<Rightarrow> (exn + jstring) \<times> 'w wstate" where
  "tool_update_memory env inp g ws =
     (case call (\<lambda>w. writeGroupFile env w g (JStr (js ''CLAUDE.md''))
                        (raw_field inp (js ''content''))) ws of
        (Inl x, ws) \<Rightarrow> (Inl x, ws)
      | (Inr u, ws) \<Rightarrow> (Inr (js ''Memory updated successfully.''), ws))"

text \<open>
  \<open>create_task\<close> calls \<open>ulid()\<close> before it reads the input, posts the task, and
  renders the two fields into its result behind that.
\<close>

definition tool_create_task :: "'w worker_env \<Rightarrow> tool_arg \<Rightarrow> jstring \<Rightarrow> 'w wstate \<Rightarrow> (exn + jstring) \<times> 'w wstate" where
  "tool_create_task env arg g ws =
     (case call (w_ulid env) ws of
        (i, ws) \<Rightarrow>
          (case fields_of arg of
             None \<Rightarrow> (Inl (JsError (type_error env JNull (js ''schedule''))), ws)
           | Some inp \<Rightarrow>
               (case call (w_now env) ws of
                  (t, ws) \<Rightarrow>
                    (let taskData = \<lparr> task_id = i, task_groupId = g,
                                       schedule = raw_field inp (js ''schedule''),
                                       prompt = raw_field inp (js ''prompt''),
                                       enabled = True, lastRun = None, createdAt = t \<rparr>;
                         ws = post (TaskCreated taskData) ws
                     in case string_of env (schedule taskData) of
                          Inl x \<Rightarrow> (Inl x, ws)
                        | Inr sched \<Rightarrow>
                            (case string_of env (prompt taskData) of
                               Inl x \<Rightarrow> (Inl x, ws)
                             | Inr prm \<Rightarrow>
                                 (Inr (js ''Task created successfully.'' @ [10] @
                                       js ''Schedule: '' @ sched @ [10] @
                                       js ''Prompt: '' @ prm), ws))))))"

definition javascript_error :: "exn \<Rightarrow> jstring" where
  "javascript_error x = js ''JavaScript error: '' @ exn_message x"

text \<open>
  The text handed to \<open>eval\<close> is the directive \<open>"use strict";\<close>, a line feed, and the
  rendering of \<open>input.code\<close>.
\<close>

definition use_strict :: jstring where
  "use_strict = [34] @ js ''use strict'' @ [34, 59, 10]"

definition tool_javascript :: "'w worker_env \<Rightarrow> tool_arg \<Rightarrow> jstring \<Rightarrow> 'w wstate \<Rightarrow> (exn + jstring) \<times> 'w wstate" where
  "tool_javascript env arg g ws =
     (case fields_of arg of
        None \<Rightarrow> (Inr (javascript_error (JsError (type_error env JNull (js ''code'')))), ws)
      | Some inp \<Rightarrow>
          (case string_of env (raw_field inp (js ''code'')) of
             Inl x \<Rightarrow> (Inr (javascript_error x), ws)
           | Inr code \<Rightarrow>
               (case call (\<lambda>w. js_eval env w (use_strict @ code)) ws of
                  (Inl x, ws) \<Rightarrow> (Inr (javascript_error x), ws)
                | (Inr result, ws) \<Rightarrow>
                    (case result of
                       JUndef \<Rightarrow> (Inr (js ''(no return value)''), ws)
                     | JNull \<Rightarrow> (Inr (js ''null''), ws)
                     | JObj ob \<Rightarrow>
                         (case obj_json env ob of
                            Inr text \<Rightarrow> (Inr text, ws)
                          | Inl x \<Rightarrow>
                              (case string_of env result of
                                 Inr text \<Rightarrow> (Inr text, ws)
                               | Inl y \<Rightarrow> (Inr (javascript_error y), ws)))
                     | _ \<Rightarrow>
                         (case string_of env result of
                            Inr text \<Rightarrow> (Inr text, ws)
                          | Inl y \<Rightarrow> (Inr (javascript_error y), ws))))))"

text \<open>
  A branch that starts by reading the field \<open>k\<close> of the input: the read throws a
  \<open>TypeError\<close> when the input is \<open>null\<close>.
\<close>

definition reading ::
    "'w worker_env \<Rightarrow> tool_arg \<Rightarrow> jstring \<Rightarrow> (tool_input \<Rightarrow> 'w wstate \<Rightarrow> (exn + jstring) \<times> 'w wstate) \<Rightarrow>
       'w wstate \<Rightarrow> (exn + jstring) \<times> 'w wstate" where
  "reading env arg k f ws =
     (case fields_of arg of
        None \<Rightarrow> (Inl (JsError (type_error env JNull k)), ws)
      | Some inp \<Rightarrow> f inp ws)"

definition run_tool :: "'w worker_env \<Rightarrow> jstring \<Rightarrow> tool_arg \<Rightarrow> jstring \<Rightarrow> 'w wstate \<Rightarrow> (exn + jstring) \<times> 'w wstate" where
  "run_tool env name arg g ws =
     (if name = js ''bash'' then reading env arg (js ''command'') (\<lambda>inp. tool_bash env inp g) ws
      else if name = js ''read_file'' then reading env arg (js ''path'') (\<lambda>inp. tool_read_file env inp g) ws
      else if name = js ''write_file'' then reading env arg (js ''path'') (\<lambda>inp. tool_write_file env inp g) ws
      else if name = js ''list_files'' then reading env arg (js ''path'') (\<lambda>inp. tool_list_files env inp g) ws
      else if name = js ''fetch_url'' then reading env arg (js ''url'') (\<lambda>inp. tool_fetch_url env inp g) ws
      else if name = js ''update_memory'' then reading env arg (js ''content'') (\<lambda>inp. tool_update_memory env inp g) ws
      else if name = js ''create_task'' then tool_create_task env arg g ws
      else if name = js ''javascript'' then tool_javascript env arg g ws
      else (Inr (js ''Unknown tool: '' @ name), ws))"

definition tool_error :: "jstring \<Rightarrow> exn \<Rightarrow> jstring" where
  "tool_error name x = js ''Tool error ('' @ name @ js ''): '' @ exn_message x"

text \<open>\<open>executeTool\<close>: the \<open>switch\<close> inside \<open>try\<close>, the \<open>catch\<close> that renders the exception.\<close>

definition executeTool :: "'w worker_env \<Rightarrow> jstring \<Rightarrow> tool_arg \<Rightarrow> jstring \<Rightarrow> 'w wstate \<Rightarrow> jstring \<times> 'w wstate" where
  "executeTool env name arg g ws =
     (case run_tool env name arg g ws of
        (Inr output, ws) \<Rightarrow> (output, ws)
      | (Inl x, ws) \<Rightarrow> (tool_error name x, ws))"

subsection \<open>The final text of a response\<close>

text \<open>
  \<open>text.replace(/<internal>[\s\S]*?<\/internal>/g, '')\<close>: scanning from the left,
  every opening tag that has a closing tag after it is removed together with everything
  up to the first such closing tag, and the scan goes on behind it.
\<close>

definition open_tag :: jstring where
  "open_tag = js ''<internal>''"

definition close_tag :: jstring where
  "close_tag = js ''</internal>''"

fun after_close :: "jstring \<Rightarrow> jstring option" where
  "after_close [] = None"
| "after_close (c # cs) =
     (if startsWith (c # cs) close_tag then Some (drop (length close_tag) (c # cs))
      else after_close cs)"

lemma after_close_length: "after_close xs = Some r \<Longrightarrow> length r \<le> length xs"
  by (induction xs) (auto split: if_splits)

function strip_internal :: "jstring \<Rightarrow> jstring" where
  "strip_internal [] = []"
| "strip_internal (c # cs) =
     (if startsWith (c # cs) open_tag
      then (case after_close (drop (length open_tag) (c # cs)) of
              Some rest \<Rightarrow> strip_internal rest
            | None \<Rightarrow> c # strip_internal cs)
      else c # strip_internal cs)"
  by pat_completeness auto
termination
proof (relation "measure length")
  fix c :: nat and cs rest :: jstring
  assume "after_close (drop (length open_tag) (c # cs)) = Some rest"
  then have "length rest \<le> length (drop (length open_tag) (c # cs))"
    by (rule after_close_length)
  moreover have "length open_tag = 10"
    by (simp add: open_tag_def js_def)
  ultimately show "(rest, c # cs) \<in> measure length"
    by simp
qed auto

definition no_response :: jstring where
  "no_response = js ''(no response)''"

text \<open>\<open>cleaned || '(no response)'\<close>, with \<open>cleaned\<close> the stripped and trimmed text.\<close>

definition final_text :: "jstring \<Rightarrow> jstring" where
  "final_text text =
     (let cleaned = trim (strip_internal text)
      in if cleaned \<noteq> [] then cleaned else no_response)"

subsection \<open>invokeAnthropic\<close>

definition maxIterations :: nat where
  "maxIterations = 25"

definition max_iterations_anthropic :: jstring where
  "max_iterations_anthropic =
     [9888, 65039] @ js '' Reached maximum tool-use iterations (25). Stopping to avoid excessive API usage.''"

definition max_iterations_ollama :: jstring where
  "max_iterations_ollama =
     [9888, 65039] @ js '' Reached maximum tool-use iterations. Stopping to avoid infinite loops.''"

definition or0 :: "nat option \<Rightarrow> nat" where
  "or0 v = (case v of Some n \<Rightarrow> n | None \<Rightarrow> 0)"

definition getContextLimit :: "jstring \<Rightarrow> nat" where
  "getContextLimit m = 200000"

fun log_text_blocks :: "'w worker_env \<Rightarrow> jstring \<Rightarrow> content_block list \<Rightarrow> 'w wstate \<Rightarrow> 'w wstate" where
  "log_text_blocks env g [] ws = ws"
| "log_text_blocks env g (TextBlock text # bs) ws =
     log_text_blocks env g bs
       (if text \<noteq> [] then log env g TextLog (js ''Response text'') (preview 200 text) ws else ws)"
| "log_text_blocks env g (b # bs) ws = log_text_blocks env g bs ws"

text \<open>
  The \<open>for\<close> loop over the response's blocks that executes every \<open>tool_use\<close> block and
  collects the \<open>tool_result\<close> blocks.
\<close>

fun execute_tool_blocks ::
    "'w worker_env \<Rightarrow> jstring \<Rightarrow> content_block list \<Rightarrow> 'w wstate \<Rightarrow> content_block list \<times> 'w wstate" where
  "execute_tool_blocks env g [] ws = ([], ws)"
| "execute_tool_blocks env g (ToolUse i name inp # bs) ws =
     (let inputShort = preview 300 (json_of_input env inp);
          ws = log env g ToolCall (js ''Tool: '' @ name) inputShort ws;
          ws = post (ToolActivity g name (js ''running'')) ws
      in case executeTool env name (ArgObject inp) g ws of
           (output, ws) \<Rightarrow>
             (let outputShort = preview 500 output;
                  ws = log env g ToolResultLog (js ''Result: '' @ name) outputShort ws;
                  ws = post (ToolActivity g name (js ''done'')) ws
              in case execute_tool_blocks env g bs ws of
                   (results, ws) \<Rightarrow> (ToolResult i (slice0 output 100000) # results, ws)))"
| "execute_tool_blocks env g (b # bs) ws = execute_tool_blocks env g bs ws"

fun block_text :: "content_block \<Rightarrow> jstring" where
  "block_text (TextBlock text) = text"
| "block_text b = []"

definition usage_anthropic :: "jstring \<Rightarrow> jstring \<Rightarrow> a_usage \<Rightarrow> token_usage" where
  "usage_anthropic g m u =
     \<lparr> u_groupId = g, inputTokens = or0 (input_tokens u), outputTokens = or0 (output_tokens u),
       cacheReadTokens = or0 (cache_read_input_tokens u),
       cacheCreationTokens = or0 (cache_creation_input_tokens u),
       contextLimit = getContextLimit m \<rparr>"

text \<open>
  One pass through the body of the \<open>while\<close> loop: \<open>Next\<close> with the extended
  transcript when the loop goes on, \<open>Stop\<close> when the body returned (\<open>None\<close>) or threw
  (\<open>Some\<close> of the exception).
\<close>

datatype ('m, 'w) round = Next "'m list" "'w wstate" | Stop "exn option" "'w wstate"

definition anthropic_ok ::
    "'w worker_env \<Rightarrow> invoke_payload \<Rightarrow> conversation_message list \<Rightarrow> a_result \<Rightarrow> 'w wstate \<Rightarrow>
       (conversation_message, 'w) round" where
  "anthropic_ok env p currentMessages result ws =
     (let g = p_groupId p;
          ws = (case a_usage result of
                  Some u \<Rightarrow> post (TokenUsage (usage_anthropic g (p_model p) u)) ws
                | None \<Rightarrow> ws);
          ws = log_text_blocks env g (a_content result) ws
      in if stop_reason result = js ''tool_use''
         then (case execute_tool_blocks env g (a_content result) ws of
                 (toolResults, ws) \<Rightarrow>
                   Next (currentMessages @
                           [\<lparr> role = Assistant, cm_content = Blocks (a_content result) \<rparr>,
                            \<lparr> role = User, cm_content = Blocks toolResults \<rparr>])
                        (post (Typing g) ws))
         else Stop None (post (Response g
                (final_text (concat (map block_text (a_content result))))) ws))"

definition anthropic_round ::
    "'w worker_env \<Rightarrow> invoke_payload \<Rightarrow> nat \<Rightarrow> conversation_message list \<Rightarrow> 'w wstate \<Rightarrow>
       (conversation_message, 'w) round" where
  "anthropic_round env p iterations currentMessages ws =
     (let g = p_groupId p;
          body = \<lparr> a_model = p_model p, a_max_tokens = p_maxTokens p,
                   a_system = p_systemPrompt p, a_messages = currentMessages \<rparr>;
          ws = log env g ApiCall (js ''API call #'' @ show_nat iterations)
                 (show_nat (length currentMessages) @ js '' messages in context'') ws
      in case call (\<lambda>w. anthropic_fetch env w body) (ws\<lparr>fetches := Suc (fetches ws)\<rparr>) of
           (FetchThrew x, ws) \<Rightarrow> Stop (Some x) ws
         | (HttpNotOk status errBody, ws) \<Rightarrow>
             Stop (Some (JsError (js ''Anthropic API error '' @ show_nat status @ js '': '' @ errBody))) ws
         | (HttpOk result, ws) \<Rightarrow> anthropic_ok env p currentMessages result ws)"

text \<open>
  The \<open>while (iterations < maxIterations)\<close> loop, with \<open>iterations++\<close> at the head of
  its body, and the warning posted behind it. The result is the exception that left the
  loop, if any; the \<open>catch\<close> of \<open>invokeAnthropic\<close> turns it into an \<open>error\<close> envelope.
\<close>

function anthropic_loop ::
    "'w worker_env \<Rightarrow> invoke_payload \<Rightarrow> nat \<Rightarrow> conversation_message list \<Rightarrow> 'w wstate \<Rightarrow>
       exn option \<times> 'w wstate" where
  "anthropic_loop env p iterations currentMessages ws =
     (if iterations < maxIterations
      then (case anthropic_round env p (iterations + 1) currentMessages ws of
              Next msgs ws' \<Rightarrow> anthropic_loop env p (iterations + 1) msgs ws'
            | Stop r ws' \<Rightarrow> (r, ws'))
      else (None, post (Response (p_groupId p) max_iterations_anthropic) ws))"
  by pat_completeness auto
termination
  by (relation "measure (\<lambda>(env, p, iterations, currentMessages, ws). maxIterations - iterations)") auto

declare anthropic_loop.simps [simp del]

definition invokeAnthropic :: "'w worker_env \<Rightarrow> invoke_payload \<Rightarrow> 'w wstate \<Rightarrow> 'w wstate" where
  "invokeAnthropic env p ws =
     (let g = p_groupId p;
          ws = post (Typing g) ws;
          ws = log env g InfoLog (js ''Starting'')
                 (js ''Model: '' @ p_model p @ [32, 183, 32] @ js ''Max tokens: '' @
                  show_nat (p_maxTokens p)) ws
      in case anthropic_loop env p 0 (p_messages p) ws of
           (None, ws) \<Rightarrow> ws
         | (Some x, ws) \<Rightarrow> post (Error g (exn_message x)) ws)"

subsection \<open>invokeOllama\<close>

definition role_name :: "role \<Rightarrow> jstring" where
  "role_name r = (case r of User \<Rightarrow> js ''user'' | Assistant \<Rightarrow> js ''assistant'')"

definition ollama_seed :: "'w worker_env \<Rightarrow> invoke_payload \<Rightarrow> o_message list" where
  "ollama_seed env p =
     (if p_systemPrompt p \<noteq> []
      then [\<lparr> o_role = js ''system'', o_content = Some (p_systemPrompt p), tool_calls = None,
              tool_call_id = None, o_name = None \<rparr>]
      else []) @
     map (\<lambda>m. \<lparr> o_role = role_name (role m),
                 o_content = Some (case cm_content m of
                                     Plain s \<Rightarrow> s | Blocks bs \<Rightarrow> json_of_blocks env bs),
                 tool_calls = None, tool_call_id = None, o_name = None \<rparr>)
       (p_messages p)"

text \<open>
  The \<open>for\<close> loop over \<open>message.tool_calls\<close>; it returns the \<open>tool\<close> messages pushed to
  the transcript. Arguments that do not parse are replaced by the empty object.
\<close>

fun execute_tool_calls ::
    "'w worker_env \<Rightarrow> jstring \<Rightarrow> o_tool_call list \<Rightarrow> 'w wstate \<Rightarrow> o_message list \<times> 'w wstate" where
  "execute_tool_calls env g [] ws = ([], ws)"
| "execute_tool_calls env g (tc # tcs) ws =
     (let inputStr = str_or (fn_arguments tc) (js ''{}'');
          ws = log env g ToolCall (js ''Tool: '' @ fn_name tc) inputStr ws;
          ws = post (ToolActivity g (fn_name tc) (js ''running'')) ws;
          inputCode = (case json_parse env inputStr of Some v \<Rightarrow> v | None \<Rightarrow> ArgObject [])
      in case executeTool env (fn_name tc) inputCode g ws of
           (outputStr, ws) \<Rightarrow>
             (let ws = log env g ToolResultLog (js ''Result: '' @ fn_name tc) (preview 500 outputStr) ws;
                  ws = post (ToolActivity g (fn_name tc) (js ''done'')) ws
              in case execute_tool_calls env g tcs ws of
                   (pushed, ws) \<Rightarrow>
                     (\<lparr> o_role = js ''tool'', o_content = Some (slice0 outputStr 100000),
                        tool_calls = None, tool_call_id = Some (tc_id tc),
                        o_name = Some (fn_name tc) \<rparr> # pushed, ws)))"

definition usage_ollama :: "jstring \<Rightarrow> o_usage \<Rightarrow> token_usage" where
  "usage_ollama g u =
     \<lparr> u_groupId = g, inputTokens = or0 (prompt_tokens u), outputTokens = or0 (completion_tokens u),
       cacheReadTokens = 0, cacheCreationTokens = 0, contextLimit = 8192 \<rparr>"

definition ollama_ok ::
    "'w worker_env \<Rightarrow> invoke_payload \<Rightarrow> o_message list \<Rightarrow> o_result \<Rightarrow> 'w wstate \<Rightarrow>
       (o_message, 'w) round" where
  "ollama_ok env p currentMessages result ws =
     (case choices result of
        [] \<Rightarrow> Stop (Some (JsError (type_error env JUndef (js ''message'')))) ws
      | choice # others \<Rightarrow>
          (let g = p_groupId p;
               msg = message choice;
               ws = (case o_usage result of
                       Some u \<Rightarrow> post (TokenUsage (usage_ollama g u)) ws
                     | None \<Rightarrow> ws);
               ws = (case o_content msg of
                       Some c \<Rightarrow> (if c \<noteq> []
                                  then log env g TextLog (js ''Response text'') (preview 200 c) ws
                                  else ws)
                     | None \<Rightarrow> ws)
           in case (if finish_reason choice = js ''tool_calls'' then tool_calls msg else None) of
                Some tcs \<Rightarrow>
                  (case execute_tool_calls env g tcs ws of
                     (pushed, ws) \<Rightarrow>
                       Next (currentMessages @ [msg] @ pushed) (post (Typing g) ws))
              | None \<Rightarrow>
                  Stop None (post (Response g
                    (final_text (str_or (o_content msg) no_response))) ws)))"

definition ollama_round ::
    "'w worker_env \<Rightarrow> invoke_payload \<Rightarrow> nat \<Rightarrow> o_message list \<Rightarrow> 'w wstate \<Rightarrow>
       (o_message, 'w) round" where
  "ollama_round env p iterations currentMessages ws =
     (let g = p_groupId p;
          body = \<lparr> o_url = p_ollamaUrl p @ js ''/v1/chat/completions'', o_model = p_model p,
                   o_messages = currentMessages, o_max_tokens = p_maxTokens p \<rparr>;
          ws = log env g ApiCall (js ''Ollama API call #'' @ show_nat iterations)
                 (show_nat (length currentMessages) @ js '' messages in context'') ws
      in case call (\<lambda>w. ollama_fetch env w body) (ws\<lparr>fetches := Suc (fetches ws)\<rparr>) of
           (FetchThrew x, ws) \<Rightarrow> Stop (Some x) ws
         | (HttpNotOk status errBody, ws) \<Rightarrow>
             Stop (Some (JsError (js ''Ollama API error '' @ show_nat status @ js '': '' @ errBody))) ws
         | (HttpOk result, ws) \<Rightarrow> ollama_ok env p currentMessages result ws)"

function ollama_loop ::
    "'w worker_env \<Rightarrow> invoke_payload \<Rightarrow> nat \<Rightarrow> o_message list \<Rightarrow> 'w wstate \<Rightarrow>
       exn option \<times> 'w wstate" where
  "ollama_loop env p iterations currentMessages ws =
     (if iterations < maxIterations
      then (case ollama_round env p (iterations + 1) currentMessages ws of
              Next msgs ws' \<Rightarrow> ollama_loop env p (iterations + 1) msgs ws'
            | Stop r ws' \<Rightarrow> (r, ws'))
      else (None, post (Response (p_groupId p) max_iterations_ollama) ws))"
  by pat_completeness auto
termination
  by (relation "measure (\<lambda>(env, p, iterations, currentMessages, ws). maxIterations - iterations)") auto

declare ollama_loop.simps [simp del]

definition invokeOllama :: "'w worker_env \<Rightarrow> invoke_payload \<Rightarrow> 'w wstate \<Rightarrow> 'w wstate" where
  "invokeOllama env p ws =
     (let g = p_groupId p;
          ws = post (Typing g) ws;
          ws = log env g InfoLog (js ''Starting (Ollama)'') (js ''Model: '' @ p_model p) ws
      in case ollama_loop env p 0 (ollama_seed env p) ws of
           (None, ws) \<Rightarrow> ws
         | (Some x, ws) \<Rightarrow> post (Error g (exn_message x)) ws)"

definition handleInvoke :: "'w worker_env \<Rightarrow> invoke_payload \<Rightarrow> 'w wstate \<Rightarrow> 'w wstate" where
  "handleInvoke env p ws =
     (if p_provider p = Ollama then invokeOllama env p ws else invokeAnthropic env p ws)"

text \<open>The \<open>response\<close> and \<open>error\<close> envelopes among the envelopes posted.\<close>

definition completions :: "worker_outbound list \<Rightarrow> worker_outbound list" where
  "completions ms = filter is_completion ms"

definition fresh :: "'w \<Rightarrow> 'w wstate" where
  "fresh w = \<lparr> world = w, outbox = [], fetches = 0 \<rparr>"

section \<open>Definitions used to state the properties\<close>

text \<open>
  The trigger pattern in words: the text mentions the assistant when an at-sign stands
  at its start or right behind a white-space character, the name follows it (compared
  case-insensitively), and the name ends at a word boundary. \<open>at_name u name t j\<close> says
  so for the at-sign at position \<open>j\<close>.
\<close>

definition at_name :: "(nat \<Rightarrow> nat) \<Rightarrow> jstring \<Rightarrow> jstring \<Rightarrow> nat \<Rightarrow> bool" where
  "at_name u name t j \<longleftrightarrow>
     j < length t \<and> t ! j = 64 \<and> Suc j + length name \<le> length t \<and>
     map (canonicalize u) (take (length name) (drop (Suc j) t)) = map (canonicalize u) name \<and>
     word_boundary t (Suc j + length name)"

definition mentions :: "(nat \<Rightarrow> nat) \<Rightarrow> jstring \<Rightarrow> jstring \<Rightarrow> bool" where
  "mentions u name t \<longleftrightarrow>
     (\<exists>j. (j = 0 \<or> (0 < j \<and> is_space (t ! (j - 1)))) \<and> at_name u name t j)"

text \<open>
  Three invariants of the coordinator: the queue is what remains of the arrivals after
  the messages shifted so far; the calls of \<open>invokeAgent\<close> that \<open>processQueue\<close> awaits
  are one while \<open>processing\<close> is set and none otherwise; the trigger pattern is the one
  built from the assistant's name.
\<close>

definition queue_inv :: "orchestrator \<Rightarrow> bool" where
  "queue_inv s \<longleftrightarrow> map fst (dequeued s) @ messageQueue s = arrived s"

definition flag_inv :: "orchestrator \<Rightarrow> bool" where
  "flag_inv s \<longleftrightarrow> dispatching s = (if processing s then 1 else 0)"

definition name_inv :: "orchestrator \<Rightarrow> bool" where
  "name_inv s \<longleftrightarrow> triggerPattern s = buildTriggerPattern (assistantName s)"

text \<open>
  For the order of draining. \<open>arrivals e evs s\<close> are the messages of the schedule \<open>evs\<close>,
  run from \<open>s\<close>, that pass the trigger check of \<open>enqueue\<close>, in the order of their
  arrival. \<open>call_of m\<close> is the pair of arguments with which \<open>processQueue\<close> calls
  \<open>invokeAgent\<close> for \<open>m\<close>. \<open>queue_calls\<close> are the arguments of the calls of
  \<open>invokeAgent\<close> made by \<open>processQueue\<close>, as \<open>invokeAgent\<close> received them;
  \<open>queue_dispatches\<close> are the groups of the \<open>invoke\<close> envelopes posted by these calls;
  \<open>invoke_groups\<close> are the groups of the \<open>invoke\<close> envelopes in the worker's inbox;
  \<open>pending\<close> are the groups of the calls made by \<open>processQueue\<close> that are suspended.
  \<open>queue_work k\<close>: the suspended call \<open>k\<close> is an \<open>enqueue\<close> that has yet to call
  \<open>processQueue\<close>, or a call of \<open>invokeAgent\<close> made by \<open>processQueue\<close>. An event is
  \<open>calm\<close> when no promise is rejected and the backend's configuration is not changed.
\<close>

fun arrivals :: "env \<Rightarrow> event list \<Rightarrow> orchestrator \<Rightarrow> inbound_message list" where
  "arrivals e [] s = []"
| "arrivals e (Arrive m # evs) s =
     (if groupId m = DEFAULT_GROUP_ID \<or> regexp_test (uc e) (triggerPattern s) (trim (content m))
      then [m] else []) @ arrivals e evs (step e (Arrive m) s)"
| "arrivals e (ev # evs) s = arrivals e evs (step e ev s)"

definition call_of :: "inbound_message \<Rightarrow> jstring \<times> jstring" where
  "call_of m = (groupId m, content m)"

definition queue_calls :: "orchestrator \<Rightarrow> (jstring \<times> jstring) list" where
  "queue_calls s = map snd (filter (\<lambda>c. fst c = FromQueue) (calls s))"

definition queue_dispatches :: "orchestrator \<Rightarrow> jstring list" where
  "queue_dispatches s = map snd (filter (\<lambda>d. fst d = FromQueue) (dispatched s))"

fun invoke_group :: "worker_inbound \<Rightarrow> jstring list" where
  "invoke_group (Invoke p) = [p_groupId p]"
| "invoke_group (Cancel g) = []"
| "invoke_group (Compact p) = []"

definition invoke_groups :: "worker_inbound list \<Rightarrow> jstring list" where
  "invoke_groups ms = concat (map invoke_group ms)"

fun group_of :: "continuation \<Rightarrow> jstring" where
  "group_of (KInvokeSave orig g m) = g"
| "group_of (KInvokeMemory orig g) = g"
| "group_of (KInvokeBuild orig g memory) = g"
| "group_of k = []"

definition pending :: "orchestrator \<Rightarrow> jstring list" where
  "pending s = map group_of (filter from_queue (suspended s))"

fun is_enqueue :: "continuation \<Rightarrow> bool" where
  "is_enqueue (KEnqueueSave m) = True"
| "is_enqueue k = False"

definition queue_work :: "continuation \<Rightarrow> bool" where
  "queue_work k \<longleftrightarrow> is_enqueue k \<or> from_queue k"

fun calm :: "event \<Rightarrow> bool" where
  "calm (Resume i Reject) = False"
| "calm (SetProvider v) = False"
| "calm (SetOllamaUrl v) = False"
| "calm (SetApiKey v) = False"
| "calm ev = True"

text \<open>
  The part of the coordinator's state on which the order of draining depends, and the
  invariants of the draining: \<open>calls_inv\<close> (the calls made by \<open>processQueue\<close> carry the
  group and content of the messages it shifted, in that order), \<open>dispatch_inv\<close> (the
  envelopes these calls posted, followed by the call that is suspended, are a
  subsequence of the calls), \<open>posted_inv\<close> (the \<open>invoke\<close> envelopes in the worker's inbox
  are the ones recorded), and \<open>steady_inv\<close>, which holds as long as the backend stays
  configured and no promise is rejected.
\<close>

definition core where
  "core s = (messageQueue s, processing s, arrived s, dequeued s, queue_calls s,
             queue_dispatches s, filter queue_work (suspended s),
             provider s, ollamaUrl s, apiKey s)"

definition calls_inv :: "orchestrator \<Rightarrow> bool" where
  "calls_inv s \<longleftrightarrow> queue_calls s = map call_of (invoked s)"

definition dispatch_inv :: "orchestrator \<Rightarrow> bool" where
  "dispatch_inv s \<longleftrightarrow> subseq (queue_dispatches s @ pending s) (map fst (queue_calls s))"

definition posted_inv :: "orchestrator \<Rightarrow> bool" where
  "posted_inv s \<longleftrightarrow> invoke_groups (posted s) = map snd (dispatched s)"

definition steady_inv :: "orchestrator \<Rightarrow> bool" where
  "steady_inv s \<longleftrightarrow>
     isConfigured s \<and> list_all snd (dequeued s) \<and>
     map fst (queue_calls s) = queue_dispatches s @ pending s \<and>
     (messageQueue s = [] \<or> processing s \<or> list_ex is_enqueue (suspended s))"

text \<open>
  The stored message that \<open>deliverResponse\<close> builds for a text, and the one that
  \<open>handleCompactDone\<close> builds for a summary, when the call starts in state \<open>s\<close>.
\<close>

definition reply_message :: "env \<Rightarrow> jstring \<Rightarrow> jstring \<Rightarrow> orchestrator \<Rightarrow> stored_message" where
  "reply_message e g text s =
     \<lparr> msg_id = ulid_at e (ticks s), groupId = g, sender = assistantName s,
       content = text, timestamp = now_at e (Suc (ticks s)),
       channel = channel_of g, isFromMe = True, isTrigger = False \<rparr>"


definition summary_message :: "env \<Rightarrow> jstring \<Rightarrow> jstring \<Rightarrow> orchestrator \<Rightarrow> stored_message" where
  "summary_message e g summary s =
     \<lparr> msg_id = ulid_at e (ticks s), groupId = g, sender = assistantName s,
       content = compacted_heading @ summary, timestamp = now_at e (Suc (ticks s)),
       channel = channel_of g, isFromMe = True, isTrigger = False \<rparr>"

text \<open>
  \<open>quiet ws ws'\<close>: from \<open>ws\<close> to \<open>ws'\<close> the worker only added envelopes to its outbox,
  none of them a \<open>response\<close> or an \<open>error\<close>, and made no backend round trip.
\<close>

definition quiet :: "'w wstate \<Rightarrow> 'w wstate \<Rightarrow> bool" where
  "quiet ws ws' \<longleftrightarrow>
     (\<exists>xs. outbox ws' = outbox ws @ xs \<and> completions xs = []) \<and> fetches ws' = fetches ws"

text \<open>
  Names for the pieces of an invocation that the properties speak about: the state in
  which a round calls the backend and the request it sends, the prologue of
  \<open>invokeAnthropic\<close> (the same for \<open>invokeOllama\<close>, and the state of its round after the
  usage and the text of the reply are logged), and three relations between worker states. \<open>advance k ws ws'\<close>: from
  \<open>ws\<close> to \<open>ws'\<close> the worker made \<open>k\<close> round trips and posted no \<open>response\<close> and no
  \<open>error\<close>. \<open>ends_with c ws ws'\<close>: the envelopes posted from \<open>ws\<close> to \<open>ws'\<close> end with
  \<open>c\<close> and hold no other \<open>response\<close> or \<open>error\<close>. \<open>loop_outcome\<close>: what the loop
  started at iteration \<open>n\<close> comes to.
\<close>

definition a_before :: "'w worker_env \<Rightarrow> invoke_payload \<Rightarrow> nat \<Rightarrow> conversation_message list \<Rightarrow> 'w wstate \<Rightarrow> 'w wstate" where
  "a_before env p n cm ws =
     (log env (p_groupId p) ApiCall (js ''API call #'' @ show_nat n)
        (show_nat (length cm) @ js '' messages in context'') ws)\<lparr>fetches := Suc (fetches ws)\<rparr>"

definition a_body :: "invoke_payload \<Rightarrow> conversation_message list \<Rightarrow> a_request" where
  "a_body p cm = \<lparr> a_model = p_model p, a_max_tokens = p_maxTokens p,
                   a_system = p_systemPrompt p, a_messages = cm \<rparr>"

definition advance :: "nat \<Rightarrow> 'w wstate \<Rightarrow> 'w wstate \<Rightarrow> bool" where
  "advance k ws ws' \<longleftrightarrow>
     (\<exists>xs. outbox ws' = outbox ws @ xs \<and> completions xs = []) \<and> fetches ws' = fetches ws + k"

definition loop_outcome :: "jstring \<Rightarrow> nat \<Rightarrow> 'w wstate \<Rightarrow> exn option \<times> 'w wstate \<Rightarrow> bool" where
  "loop_outcome g n ws r \<longleftrightarrow>
     (case r of
        (None, ws') \<Rightarrow>
          (\<exists>k t ws''. k \<le> maxIterations - n \<and> advance k ws ws'' \<and>
                      ws' = post (Response g t) ws'' \<and> t \<noteq> [])
      | (Some x, ws') \<Rightarrow> (\<exists>k. k \<le> maxIterations - n \<and> advance k ws ws'))"

definition a_start :: "'w worker_env \<Rightarrow> invoke_payload \<Rightarrow> 'w wstate \<Rightarrow> 'w wstate" where
  "a_start env p ws =
     log env (p_groupId p) InfoLog (js ''Starting'')
       (js ''Model: '' @ p_model p @ [32, 183, 32] @ js ''Max tokens: '' @ show_nat (p_maxTokens p))
       (post (Typing (p_groupId p)) ws)"

definition ends_with :: "worker_outbound \<Rightarrow> 'w wstate \<Rightarrow> 'w wstate \<Rightarrow> bool" where
  "ends_with c ws ws' \<longleftrightarrow> (\<exists>xs. outbox ws' = outbox ws @ xs @ [c] \<and> completions xs = [])"

definition o_before :: "'w worker_env \<Rightarrow> invoke_payload \<Rightarrow> nat \<Rightarrow> o_message list \<Rightarrow> 'w wstate \<Rightarrow> 'w wstate" where
  "o_before env p n cm ws =
     (log env (p_groupId p) ApiCall (js ''Ollama API call #'' @ show_nat n)
        (show_nat (length cm) @ js '' messages in context'') ws)\<lparr>fetches := Suc (fetches ws)\<rparr>"

definition o_body :: "invoke_payload \<Rightarrow> o_message list \<Rightarrow> o_request" where
  "o_body p cm = \<lparr> o_url = p_ollamaUrl p @ js ''/v1/chat/completions'', o_model = p_model p,
                   o_messages = cm, o_max_tokens = p_maxTokens p \<rparr>"

definition o_start :: "'w worker_env \<Rightarrow> invoke_payload \<Rightarrow> 'w wstate \<Rightarrow> 'w wstate" where
  "o_start env p ws =
     log env (p_groupId p) InfoLog (js ''Starting (Ollama)'') (js ''Model: '' @ p_model p)
       (post (Typing (p_groupId p)) ws)"

definition o_logged :: "'w worker_env \<Rightarrow> invoke_payload \<Rightarrow> o_result \<Rightarrow> o_choice \<Rightarrow> 'w wstate \<Rightarrow> 'w wstate" where
  "o_logged env p result choice ws =
     (let ws = (case o_usage result of
                  Some u \<Rightarrow> post (TokenUsage (usage_ollama (p_groupId p) u)) ws
                | None \<Rightarrow> ws)
      in case o_content (message choice) of
           Some c \<Rightarrow> (if c \<noteq> []
                      then log env (p_groupId p) TextLog (js ''Response text'') (preview 200 c) ws
                      else ws)
         | None \<Rightarrow> ws)"

text \<open>
  Concrete inputs for the examples: an environment, two messages of a Telegram group
  that mention the assistant, a coordinator configured for the Anthropic backend and one
  without an API key, and a schedule in which the second message arrives after the first
  invocation has been posted to the worker and before the worker has answered.
\<close>

definition demo_env :: env where
  "demo_env = \<lparr> uc = (\<lambda>c. c), ulid_at = show_nat, now_at = int,
                 to_conversation = (\<lambda>m. \<lparr> role = (if isFromMe m then Assistant else User),
                                            cm_content = Plain (content m) \<rparr>) \<rparr>"

definition tg_first :: inbound_message where
  "tg_first = \<lparr> msg_id = js ''m1'', groupId = js ''tg:42'', sender = js ''Ana'',
                 content = js ''@Andy first'', timestamp = 1000, channel = Telegram \<rparr>"

definition tg_second :: inbound_message where
  "tg_second = \<lparr> msg_id = js ''m2'', groupId = js ''tg:42'', sender = js ''Ana'',
                  content = js ''@Andy second'', timestamp = 2000, channel = Telegram \<rparr>"

definition configured :: orchestrator where
  "configured = init ASSISTANT_NAME Anthropic [] (js ''sk-test'') (js ''claude-sonnet-4-6'') 8096 []"

definition two_arrivals :: "event list" where
  "two_arrivals =
     [Arrive tg_first, Resume 0 (Fulfil []), Resume 0 Reject, Resume 0 (Fulfil []),
      Arrive tg_second, Resume 0 (Fulfil []), Resume 0 Reject, Resume 0 (Fulfil [])]"

definition unconfigured :: orchestrator where
  "unconfigured = init ASSISTANT_NAME Anthropic [] [] (js ''claude-sonnet-4-6'') 8096 []"

text \<open>
  A burst: a second triggered message, for another group, arrives before the first has
  been saved, and then every promise is fulfilled in turn.
\<close>

definition tg_other :: inbound_message where
  "tg_other = \<lparr> msg_id = js ''m3'', groupId = js ''tg:7'', sender = js ''bob'',
                content = js ''@Andy third'', timestamp = 1002, channel = Telegram \<rparr>"

definition burst :: "event list" where
  "burst = [Arrive tg_first, Arrive tg_other,
            Resume 0 (Fulfil []), Resume 0 (Fulfil []), Resume 0 (Fulfil []),
            Resume 0 (Fulfil []), Resume 0 (Fulfil []), Resume 0 (Fulfil [])]"

text \<open>
  A reply that is not saved: the first message is invoked and its \<open>invoke\<close> envelope
  posted, the worker answers, and the promise of \<open>saveMessage\<close> in
  \<open>deliverResponse\<close> is rejected.
\<close>

definition save_rejected :: "event list" where
  "save_rejected =
     [Arrive tg_first, Resume 0 (Fulfil []), Resume 0 (Fulfil []), Resume 0 (Fulfil []),
      WorkerMessage (Response (js ''tg:42'') (js ''done'')), Resume 0 Reject]"

text \<open>
  A message that arrives during a compaction: the \<open>compact-done\<close> envelope is being
  handled, \<open>clearGroupMessages\<close> has been called, and before the handler saves the
  summary a message of the group arrives and is saved.
\<close>

definition compact_race :: "event list" where
  "compact_race =
     [WorkerMessage (CompactDone (js ''tg:42'') (js ''summary'')), Arrive tg_first,
      Resume 0 (Fulfil []), Resume 0 (Fulfil []), Resume 0 (Fulfil [])]"


text \<open>
  For the worker: an environment whose two backends give a fixed reply, whose tools'
  implementations all throw, and whose world is a single point; an invocation; a tool
  call that reads a file outside the workspace; replies that ask for that tool; and
  replies that end the turn with a text made of an \<open>internal\<close> section only.
\<close>

definition stub_env :: "a_result reply \<Rightarrow> o_result reply \<Rightarrow> unit worker_env" where
  "stub_env ra ro =
     \<lparr> anthropic_fetch = (\<lambda>w req. (ra, w)),
       ollama_fetch = (\<lambda>w req. (ro, w)),
       executeShell = (\<lambda>w c g t. (Inl (JsError (js ''Shell unavailable'')), w)),
       readGroupFile = (\<lambda>w g path. (Inl (JsError (js ''File not found'')), w)),
       writeGroupFile = (\<lambda>w g path c. (Inl (JsError (js ''Invalid path'')), w)),
       listGroupFiles = (\<lambda>w g path. (Inl (JsError (js ''Directory not found'')), w)),
       fetch_url = (\<lambda>w u m h b. (Inl (JsError (js ''Failed to fetch'')), w)),
       js_eval = (\<lambda>w c. (Inl (JsError (js ''x is not defined'')), w)),
       num_string = (\<lambda>n. js ''NaN''),
       math_min = (\<lambda>v n. Inr n),
       obj_json = Inr, obj_string = Inr, obj_length = Inr,
       json_of_input = (\<lambda>i. js ''{}''), json_of_blocks = (\<lambda>b. js ''[]''),
       json_parse = (\<lambda>s. None), strip_html = (\<lambda>s. s),
       type_error = (\<lambda>v k. js ''Cannot read properties of null''),
       w_ulid = (\<lambda>w. (js ''01J'', w)), w_now = (\<lambda>w. (0, w)) \<rparr>"

definition demo_payload :: invoke_payload where
  "demo_payload = \<lparr> p_groupId = js ''tg:42'', p_messages = [], p_systemPrompt = js ''You are Andy'',
                     p_provider = Anthropic, p_apiKey = js ''sk-test'', p_ollamaUrl = js ''http://localhost:11434'',
                     p_model = js ''claude-sonnet-4-6'', p_maxTokens = 8096 \<rparr>"




definition hidden_text :: jstring where
  "hidden_text = js ''<internal>plan</internal> ''"

definition hidden_reply_a :: a_result where
  "hidden_reply_a = \<lparr> a_content = [TextBlock hidden_text], stop_reason = js ''end_turn'',
                       a_usage = None \<rparr>"

definition hidden_choice :: o_choice where
  "hidden_choice = \<lparr> message = \<lparr> o_role = js ''assistant'', o_content = Some hidden_text,
                                   tool_calls = None, tool_call_id = None, o_name = None \<rparr>,
                       finish_reason = js ''stop'' \<rparr>"

definition hidden_reply_o :: o_result where
  "hidden_reply_o = \<lparr> choices = [hidden_choice], o_usage = None \<rparr>"


section \<open>Properties of the coordinator\<close>

subsection \<open>The trigger pattern\<close>
lemma pattern_atoms_plain: "c \<noteq> 92 \<Longrightarrow> pattern_atoms (c # xs) = c # pattern_atoms xs"
  by (cases xs) auto

lemma pattern_atoms_escape: "pattern_atoms (escape_regex name) = name"
proof (induction name)
  case Nil
  then show ?case by (simp add: escape_regex_def)
next
  case (Cons c cs)
  have step: "escape_regex (c # cs) = (if c \<in> set regex_specials then [92, c] else [c]) @ escape_regex cs"
    by (simp add: escape_regex_def)
  show ?case
  proof (cases "c \<in> set regex_specials")
    case True
    then show ?thesis using Cons step by simp
  next
    case False
    then have "c \<noteq> 92" by (auto simp: regex_specials_def)
    then show ?thesis using Cons step False by (simp add: pattern_atoms_plain)
  qed
qed

lemma rx_ends_lits:
  "i \<le> length s \<Longrightarrow> rx_ends u True (rx_lits cs) s i =
     (if i + length cs \<le> length s \<and>
         map (canonicalize u) (take (length cs) (drop i s)) = map (canonicalize u) cs
      then [i + length cs] else [])"
proof (induction cs arbitrary: i)
  case Nil
  then show ?case by (simp add: rx_lits_def)
next
  case (Cons c cs)
  have unf: "rx_lits (c # cs) = RSeq (RLit c) (rx_lits cs)"
    by (simp add: rx_lits_def)
  show ?case
  proof (cases "i < length s")
    case False
    then have "\<not> i + length (c # cs) \<le> length s" by simp
    with False show ?thesis by (simp add: unf)
  next
    case True
    then have d: "drop i s = s ! i # drop (Suc i) s"
      by (simp add: Cons_nth_drop_Suc)
    show ?thesis using True by (auto simp: unf Cons d)
  qed
qed

lemma canon_at: "canonicalize u c = canonicalize u 64 \<longleftrightarrow> c = 64"
  by (auto simp: canonicalize_def Let_def)

lemma rx_seq_nonempty:
  "rx_ends u ic (RSeq a b) s i \<noteq> [] \<longleftrightarrow> (\<exists>j. j \<in> set (rx_ends u ic a s i) \<and> rx_ends u ic b s j \<noteq> [])"
  by auto

lemma tail_match:
  "rx_ends u True (RSeq (RLit 64) (RSeq (rx_lits name) RWordB)) t j \<noteq> [] \<longleftrightarrow> at_name u name t j"
  by (auto simp: rx_ends_lits canon_at at_name_def)

lemma head_ends:
  "j \<in> set (rx_ends u ic (RAlt RStart RSpace) t i) \<longleftrightarrow>
     (i = 0 \<and> j = 0) \<or> (i < length t \<and> is_space (t ! i) \<and> j = Suc i)"
  by auto

lemma regexp_test_ex:
  "regexp_test u re s \<longleftrightarrow> (\<exists>i. i \<le> length s \<and> rx_ends u (ignoreCase re) (pattern re) s i \<noteq> [])"
proof -
  have "set [0 ..< Suc (length s)] = {i. i \<le> length s}" by auto
  then show ?thesis unfolding regexp_test_def list_ex_iff by blast
qed

lemma regexp_test_trigger:
  "regexp_test u (buildTriggerPattern name) t \<longleftrightarrow> mentions u name t"
proof -
  have "regexp_test u (buildTriggerPattern name) t \<longleftrightarrow>
     (\<exists>i j. i \<le> length t \<and> j \<in> set (rx_ends u True (RAlt RStart RSpace) t i) \<and> at_name u name t j)"
    unfolding regexp_test_ex
    by (simp only: buildTriggerPattern_def Let_def regexp.simps pattern_atoms_escape
        rx_seq_nonempty[of u True "RAlt RStart RSpace"] tail_match) blast
  also have "\<dots> \<longleftrightarrow> mentions u name t"
  proof
    assume "\<exists>i j. i \<le> length t \<and> j \<in> set (rx_ends u True (RAlt RStart RSpace) t i) \<and> at_name u name t j"
    then obtain i j where "j \<in> set (rx_ends u True (RAlt RStart RSpace) t i)" "at_name u name t j"
      by blast
    then show "mentions u name t"
      unfolding mentions_def head_ends by (intro exI[of _ j]) auto
  next
    assume "mentions u name t"
    then obtain j where j: "j = 0 \<or> (0 < j \<and> is_space (t ! (j - 1)))" "at_name u name t j"
      by (auto simp: mentions_def)
    have jl: "j < length t" using j(2) by (simp add: at_name_def)
    have "j \<in> set (rx_ends u True (RAlt RStart RSpace) t (j - 1))"
      unfolding head_ends using j(1) jl by auto
    moreover have "j - 1 \<le> length t" using jl by simp
    ultimately show "\<exists>i j. i \<le> length t \<and> j \<in> set (rx_ends u True (RAlt RStart RSpace) t i) \<and> at_name u name t j"
      using j(2) by blast
  qed
  finally show ?thesis .
qed

lemma name_codes: "ASSISTANT_NAME = [65, 110, 100, 121]"
  by (simp add: ASSISTANT_NAME_def js_def)

lemma example_at_andy: "regexp_test u (buildTriggerPattern ASSISTANT_NAME) (js ''@Andy'')"
  unfolding regexp_test_trigger mentions_def name_codes
  by (rule exI[of _ 0]) (simp add: js_def at_name_def canonicalize_def word_boundary_def is_word_at_def is_word_def)

lemma example_hi_andy: "regexp_test u (buildTriggerPattern ASSISTANT_NAME) (js ''hi @andy can you'')"
  unfolding regexp_test_trigger mentions_def name_codes
  by (rule exI[of _ 3]) (simp add: js_def at_name_def canonicalize_def word_boundary_def is_word_at_def is_word_def is_space_def)

lemma example_andyson: "\<not> regexp_test u (buildTriggerPattern ASSISTANT_NAME) (js ''@Andyson'')"
proof -
  have "\<not> at_name u [65, 110, 100, 121] (js ''@Andyson'') j" for j
  proof (cases "j = 0")
    case True
    then show ?thesis
      by (simp add: js_def at_name_def word_boundary_def is_word_at_def is_word_def)
  next
    case False
    have "j < 8 \<Longrightarrow> js ''@Andyson'' ! j \<noteq> 64"
      using False by (cases j rule: nat.exhaust) (auto simp: js_def nth_Cons' )
    then show ?thesis by (auto simp: at_name_def js_def)
  qed
  then show ?thesis
    unfolding regexp_test_trigger mentions_def name_codes by blast
qed


subsection \<open>Frames\<close>

lemmas coord_defs = setState_def emit_def router_setTyping_def router_send_def suspend_def
  ulid_def date_now_def saveMessage_def postMessage_def playNotificationChime_def
  clearGroupMessages_def saveTask_def

lemmas handler_defs = deliverResponse_def deliverResponse_saved_def deliverResponse_sent_def
  handleCompactDone_def handleCompactDone_cleared_def handleCompactDone_saved_def
  compactContext_def newSession_def

lemma invokeAgent_frame:
  "messageQueue (invokeAgent e orig g c s) = messageQueue s"
  "arrived (invokeAgent e orig g c s) = arrived s"
  "dequeued (invokeAgent e orig g c s) = dequeued s"
  "processing (invokeAgent e orig g c s) = processing s"
  "triggerPattern (invokeAgent e orig g c s) = triggerPattern s"
  "assistantName (invokeAgent e orig g c s) = assistantName s"
  "posted (invokeAgent e orig g c s) = posted s"
  "handled (invokeAgent e orig g c s) = handled s"
  "dispatched (invokeAgent e orig g c s) = dispatched s"
  "provider (invokeAgent e orig g c s) = provider s"
  "ollamaUrl (invokeAgent e orig g c s) = ollamaUrl s"
  "apiKey (invokeAgent e orig g c s) = apiKey s"
  "calls (invokeAgent e orig g c s) = calls s @ [(orig, g, c)]"
  by (simp_all add: invokeAgent_def coord_defs Let_def split: prod.splits)

lemma invokeAgent_suspended:
  "\<exists>k. suspended (invokeAgent e orig g c s) = suspended s @ [k] \<and>
       from_queue k = (orig = FromQueue) \<and> group_of k = g \<and> \<not> is_enqueue k"
  by (simp add: invokeAgent_def coord_defs Let_def split: prod.splits)

lemma processQueue_fields:
  "triggerPattern (processQueue e s) = triggerPattern s"
  "assistantName (processQueue e s) = assistantName s"
  "posted (processQueue e s) = posted s"
  "handled (processQueue e s) = handled s"
  "arrived (processQueue e s) = arrived s"
  "dispatched (processQueue e s) = dispatched s"
  "provider (processQueue e s) = provider s"
  "ollamaUrl (processQueue e s) = ollamaUrl s"
  "apiKey (processQueue e s) = apiKey s"
  by (simp_all add: processQueue_def emit_def invokeAgent_frame split: list.splits)

lemma processQueue_queue_inv: "queue_inv s \<Longrightarrow> queue_inv (processQueue e s)"
  by (auto simp: queue_inv_def processQueue_def emit_def invokeAgent_frame split: list.splits)

lemma dispatching_append: "dispatching (s\<lparr>suspended := suspended s @ [k]\<rparr>) = dispatching s + (if from_queue k then 1 else 0)"
  by (simp add: dispatching_def)

lemma invokeAgent_dispatching:
  "dispatching (invokeAgent e orig g c s) = dispatching s + (if orig = FromQueue then 1 else 0)"
  using invokeAgent_suspended[of e orig g c s] by (auto simp: dispatching_def)

lemma processQueue_flag_inv: "flag_inv s \<Longrightarrow> flag_inv (processQueue e s)"
  by (auto simp: flag_inv_def processQueue_def emit_def invokeAgent_frame invokeAgent_dispatching
      split: list.splits) (simp_all add: dispatching_def)

lemma enqueue_fields:
  "triggerPattern (enqueue e m s) = triggerPattern s"
  "assistantName (enqueue e m s) = assistantName s"
  "posted (enqueue e m s) = posted s"
  "handled (enqueue e m s) = handled s"
  "processing (enqueue e m s) = processing s"
  "dispatched (enqueue e m s) = dispatched s"
  "calls (enqueue e m s) = calls s"
  "dequeued (enqueue e m s) = dequeued s"
  "provider (enqueue e m s) = provider s"
  "ollamaUrl (enqueue e m s) = ollamaUrl s"
  "apiKey (enqueue e m s) = apiKey s"
  by (simp_all add: enqueue_def suspend_def Let_def)

lemma enqueue_queue_inv: "queue_inv s \<Longrightarrow> queue_inv (enqueue e m s)"
  by (auto simp: queue_inv_def enqueue_def suspend_def Let_def)

lemma enqueue_flag_inv: "flag_inv s \<Longrightarrow> flag_inv (enqueue e m s)"
  by (auto simp: flag_inv_def enqueue_def suspend_def Let_def dispatching_def)

lemma finally_queue_inv: "queue_inv s \<Longrightarrow> queue_inv (processQueue_finally e s)"
proof -
  assume "queue_inv s"
  then have "queue_inv (s\<lparr>processing := False\<rparr>)" by (simp add: queue_inv_def)
  then show ?thesis
    by (simp add: processQueue_finally_def Let_def processQueue_queue_inv)
qed

lemma finally_flag_inv: "dispatching s = 0 \<Longrightarrow> flag_inv (processQueue_finally e s)"
proof -
  assume "dispatching s = 0"
  then have "flag_inv (s\<lparr>processing := False\<rparr>)" by (simp add: flag_inv_def dispatching_def)
  then show ?thesis
    by (simp add: processQueue_finally_def Let_def processQueue_flag_inv)
qed

text \<open>
  The calls that are not part of the draining (the envelope handlers, the public
  methods, the scheduler's invocations and their continuations) leave \<open>core\<close> as it is.
\<close>

lemma filter_remove:
  "i < length xs \<Longrightarrow>
   filter P xs = filter P (take i xs) @ (if P (xs ! i) then [xs ! i] else []) @ filter P (drop (Suc i) xs)"
proof -
  assume i: "i < length xs"
  have "xs = take i xs @ xs ! i # drop (Suc i) xs"
    using i by (simp add: id_take_nth_drop)
  then have "filter P xs = filter P (take i xs @ xs ! i # drop (Suc i) xs)" by simp
  then show ?thesis by simp
qed

lemma core_remove:
  "i < length (suspended s) \<Longrightarrow> \<not> queue_work (suspended s ! i) \<Longrightarrow>
   core (s\<lparr>suspended := take i (suspended s) @ drop (Suc i) (suspended s)\<rparr>) = core s"
  using filter_remove[of i "suspended s" queue_work]
  by (simp add: core_def queue_calls_def queue_dispatches_def)

lemma core_resume:
  "\<not> queue_work k \<Longrightarrow> core (resume e k st s) = core s"
  by (cases k; cases st)
     (auto simp: queue_work_def core_def queue_calls_def queue_dispatches_def handler_defs
        coord_defs Let_def invokeAgent_settled_def split: prod.splits origin.splits)

lemma core_handler: "core (handleWorkerMessage e m s) = core s"
  by (cases m)
     (simp_all add: queue_work_def core_def queue_calls_def queue_dispatches_def handler_defs
        coord_defs Let_def split: prod.splits)

lemma core_handled: "core (s\<lparr>handled := n\<rparr>) = core s"
  by (simp add: core_def queue_calls_def queue_dispatches_def)

lemma core_scheduler: "core (invokeAgent e FromScheduler g p s) = core s"
  using invokeAgent_suspended[of e FromScheduler g p s]
  by (auto simp: core_def queue_calls_def queue_dispatches_def invokeAgent_frame queue_work_def)

lemma core_public:
  "core (compactContext e g s) = core s"
  "core (newSession g s) = core s"
  "core (s\<lparr>model := v\<rparr>) = core s"
  "core (setAssistantName v s) = core s"
  by (simp_all add: core_def queue_calls_def queue_dispatches_def handler_defs coord_defs
        Let_def queue_work_def setAssistantName_def)

lemma filter_from_queue: "filter from_queue (filter queue_work xs) = filter from_queue xs"
  by (induction xs) (auto simp: queue_work_def)

lemma filter_is_enqueue: "filter is_enqueue (filter queue_work xs) = filter is_enqueue xs"
  by (induction xs) (auto simp: queue_work_def)

lemma core_fields:
  assumes "core s' = core s"
  shows "messageQueue s' = messageQueue s" "processing s' = processing s"
    "arrived s' = arrived s" "dequeued s' = dequeued s" "queue_calls s' = queue_calls s"
    "queue_dispatches s' = queue_dispatches s"
    "filter from_queue (suspended s') = filter from_queue (suspended s)"
    "filter is_enqueue (suspended s') = filter is_enqueue (suspended s)"
    "provider s' = provider s" "ollamaUrl s' = ollamaUrl s" "apiKey s' = apiKey s"
proof -
  have w: "filter queue_work (suspended s') = filter queue_work (suspended s)"
    using assms by (simp add: core_def)
  show "filter from_queue (suspended s') = filter from_queue (suspended s)"
    using w filter_from_queue by metis
  show "filter is_enqueue (suspended s') = filter is_enqueue (suspended s)"
    using w filter_is_enqueue by metis
qed (use assms in \<open>simp_all add: core_def\<close>)

lemma list_ex_filter: "list_ex P xs \<longleftrightarrow> filter P xs \<noteq> []"
  by (induction xs) auto

lemma core_invs:
  assumes "core s' = core s"
  shows "queue_inv s' = queue_inv s" "flag_inv s' = flag_inv s" "calls_inv s' = calls_inv s"
    "dispatch_inv s' = dispatch_inv s" "steady_inv s' = steady_inv s"
  using core_fields[OF assms]
  by (simp_all add: queue_inv_def flag_inv_def dispatching_def calls_inv_def invoked_def
        dispatch_inv_def pending_def steady_inv_def isConfigured_def list_ex_filter)

subsection \<open>Invariants of the queue\<close>

lemma dispatching_remove:
  "i < length (suspended s) \<Longrightarrow>
   dispatching (s\<lparr>suspended := take i (suspended s) @ drop (Suc i) (suspended s)\<rparr>) +
     (if from_queue (suspended s ! i) then 1 else 0) = dispatching s"
  using filter_remove[of i "suspended s" from_queue] by (simp add: dispatching_def)

lemma settled_queue_inv: "queue_inv s \<Longrightarrow> queue_inv (invokeAgent_settled e orig s)"
  by (cases orig) (simp_all add: invokeAgent_settled_def finally_queue_inv)

lemma resume_queue_inv:
  assumes q: "queue_inv s"
  shows "queue_inv (resume e k st s)"
proof (cases "queue_work k")
  case False
  show ?thesis using q core_invs(1)[OF core_resume[OF False, of e st s]] by simp
next
  case True
  show ?thesis
  proof (cases k)
    case (KEnqueueSave m)
    have "queue_inv (emit (EvMessage m) (saveMessage m s))"
      using q by (simp add: queue_inv_def coord_defs)
    then show ?thesis using KEnqueueSave q
      by (cases st) (simp_all add: processQueue_queue_inv)
  next
    case (KInvokeSave orig g m)
    have "queue_inv (suspend (KInvokeMemory orig g) (emit (EvMessage m) (saveMessage m s)))"
      using q by (simp add: queue_inv_def coord_defs)
    then show ?thesis using KInvokeSave q
      by (cases st) (simp_all add: settled_queue_inv)
  next
    case (KInvokeMemory orig g)
    then show ?thesis using q
      by (simp add: queue_inv_def coord_defs)
  next
    case (KInvokeBuild orig g memory)
    have "queue_inv (postMessage (invoke_envelope e g memory s)
            (s\<lparr>dispatched := dispatched s @ [(orig, g)]\<rparr>))"
      using q by (simp add: queue_inv_def coord_defs)
    then show ?thesis using KInvokeBuild q
      by (cases st) (simp_all add: settled_queue_inv)
  qed (use True in \<open>simp_all add: queue_work_def\<close>)
qed

lemma step_queue_inv: "queue_inv s \<Longrightarrow> queue_inv (step e ev s)"
proof (cases ev)
  case (Arrive m)
  assume "queue_inv s" then show ?thesis using Arrive by (simp add: enqueue_queue_inv)
next
  case (Resume i st)
  assume q: "queue_inv s"
  then have "queue_inv (s\<lparr>suspended := take i (suspended s) @ drop (Suc i) (suspended s)\<rparr>)"
    by (simp add: queue_inv_def)
  then show ?thesis using Resume q by (simp add: resume_queue_inv)
next
  case (SchedulerFire g p)
  assume "queue_inv s" then show ?thesis using SchedulerFire
    by (simp add: queue_inv_def invokeAgent_frame)
next
  case (WorkerMessage m)
  assume "queue_inv s" then show ?thesis using WorkerMessage
    by (simp add: core_invs(1)[OF core_handler] core_invs(1)[OF core_handled])
next
  case (CompactContext g)
  assume "queue_inv s" then show ?thesis using CompactContext
    by (simp add: core_invs(1)[OF core_public(1)])
next
  case (NewSession g)
  assume "queue_inv s" then show ?thesis using NewSession
    by (simp add: core_invs(1)[OF core_public(2)])
next
  case (SetAssistantName v)
  assume "queue_inv s" then show ?thesis using SetAssistantName
    by (simp add: queue_inv_def setAssistantName_def)
qed (simp_all add: queue_inv_def)

lemma run_snoc: "run e (evs @ [ev]) s = step e ev (run e evs s)"
  by (simp add: run_def)

lemma run_queue_inv: "queue_inv s \<Longrightarrow> queue_inv (run e evs s)"
  by (induction evs rule: rev_induct) (simp_all add: run_def step_queue_inv)

lemma init_queue_inv: "queue_inv (init name prov url key mdl mt store)"
  by (simp add: queue_inv_def init_def)

lemma invoked_subseq: "queue_inv s \<Longrightarrow> subseq (invoked s) (arrived s)"
proof -
  assume q: "queue_inv s"
  have "subseq (map fst (filter snd (dequeued s))) (map fst (dequeued s))"
    by (intro subseq_map subseq_filter_left)
  also have "subseq (map fst (dequeued s)) (map fst (dequeued s) @ messageQueue s)"
    by (rule prefix_imp_subseq) simp
  finally show ?thesis using q by (simp add: invoked_def queue_inv_def)
qed

lemma settled_flag_inv:
  "(orig = FromQueue \<longrightarrow> dispatching s = 0) \<Longrightarrow> (orig \<noteq> FromQueue \<longrightarrow> flag_inv s) \<Longrightarrow>
   flag_inv (invokeAgent_settled e orig s)"
  by (cases orig) (simp_all add: invokeAgent_settled_def finally_flag_inv)

lemma resume_flag_inv:
  assumes inv: "flag_inv s" and i: "i < length (suspended s)"
  shows "flag_inv (resume e (suspended s ! i) st
           (s\<lparr>suspended := take i (suspended s) @ drop (Suc i) (suspended s)\<rparr>))"
proof -
  let ?k = "suspended s ! i"
  let ?s = "s\<lparr>suspended := take i (suspended s) @ drop (Suc i) (suspended s)\<rparr>"
  have rem: "dispatching ?s + (if from_queue ?k then 1 else 0) = dispatching s"
    using i by (rule dispatching_remove)
  have notq: "\<not> from_queue ?k \<Longrightarrow> flag_inv ?s"
    using rem inv by (simp add: flag_inv_def)
  have isq: "from_queue ?k \<Longrightarrow> dispatching ?s = 0 \<and> processing ?s"
    using rem inv by (auto simp: flag_inv_def split: if_splits)
  show ?thesis
  proof (cases "queue_work ?k")
    case False
    then have "flag_inv ?s" using notq by (simp add: queue_work_def)
    then show ?thesis using core_invs(2)[OF core_resume[OF False, of e st ?s]] by simp
  next
    case True
    show ?thesis
    proof (cases ?k)
      case (KEnqueueSave m)
      then have "flag_inv ?s" using notq by simp
      then have "flag_inv (emit (EvMessage m) (saveMessage m ?s))"
        by (simp add: flag_inv_def dispatching_def coord_defs)
      then show ?thesis using KEnqueueSave \<open>flag_inv ?s\<close>
        by (cases st) (simp_all add: processQueue_flag_inv)
    next
      case (KInvokeSave orig g m)
      have a: "flag_inv (suspend (KInvokeMemory orig g) (emit (EvMessage m) (saveMessage m ?s)))"
        using notq isq KInvokeSave
        by (cases orig) (auto simp: flag_inv_def dispatching_def coord_defs)
      have b: "flag_inv (invokeAgent_settled e orig ?s)"
        using notq isq KInvokeSave by (intro settled_flag_inv) auto
      show ?thesis using KInvokeSave a b by (cases st) simp_all
    next
      case (KInvokeMemory orig g)
      have "flag_inv (suspend (KInvokeBuild orig g mem) ?s)" for mem
        using notq isq KInvokeMemory
        by (cases orig) (auto simp: flag_inv_def dispatching_def coord_defs)
      then show ?thesis using KInvokeMemory by simp
    next
      case (KInvokeBuild orig g memory)
      have a: "flag_inv (invokeAgent_settled e orig
                 (postMessage (invoke_envelope e g memory ?s)
                    (?s\<lparr>dispatched := dispatched ?s @ [(orig, g)]\<rparr>)))"
        using notq isq KInvokeBuild
        by (intro settled_flag_inv) (auto simp: flag_inv_def dispatching_def coord_defs)
      have b: "flag_inv (invokeAgent_settled e orig ?s)"
        using notq isq KInvokeBuild by (intro settled_flag_inv) auto
      show ?thesis using KInvokeBuild a b by (cases st) simp_all
    qed (use True in \<open>simp_all add: queue_work_def\<close>)
  qed
qed

lemma step_flag_inv: "flag_inv s \<Longrightarrow> flag_inv (step e ev s)"
proof (cases ev)
  case (Arrive m)
  assume "flag_inv s" then show ?thesis using Arrive by (simp add: enqueue_flag_inv)
next
  case (Resume i st)
  assume "flag_inv s" then show ?thesis using Resume by (simp add: resume_flag_inv)
next
  case (SchedulerFire g p)
  assume "flag_inv s" then show ?thesis using SchedulerFire
    by (simp add: flag_inv_def invokeAgent_frame invokeAgent_dispatching)
next
  case (WorkerMessage m)
  assume "flag_inv s" then show ?thesis using WorkerMessage
    by (simp add: core_invs(2)[OF core_handler] core_invs(2)[OF core_handled])
next
  case (CompactContext g)
  assume "flag_inv s" then show ?thesis using CompactContext
    by (simp add: core_invs(2)[OF core_public(1)])
next
  case (NewSession g)
  assume "flag_inv s" then show ?thesis using NewSession
    by (simp add: core_invs(2)[OF core_public(2)])
next
  case (SetAssistantName v)
  assume "flag_inv s" then show ?thesis using SetAssistantName
    by (simp add: flag_inv_def dispatching_def setAssistantName_def)
qed (simp_all add: flag_inv_def dispatching_def)

lemma run_flag_inv: "flag_inv s \<Longrightarrow> flag_inv (run e evs s)"
  by (induction evs rule: rev_induct) (simp_all add: run_def step_flag_inv)

lemma init_flag_inv: "flag_inv (init name prov url key mdl mt store)"
  by (simp add: flag_inv_def dispatching_def init_def)

lemma dispatch_serialised:
  "dispatching (run e evs (init name prov url key mdl mt store)) =
     (if processing (run e evs (init name prov url key mdl mt store)) then 1 else 0)"
  using run_flag_inv[OF init_flag_inv] flag_inv_def by blast

lemma resume_names:
  "triggerPattern (resume e k st s) = triggerPattern s \<and>
   assistantName (resume e k st s) = assistantName s"
  by (cases k; cases st)
     (auto simp: handler_defs coord_defs Let_def invokeAgent_settled_def processQueue_finally_def
        processQueue_fields split: prod.splits origin.splits)

lemma step_name_inv: "name_inv s \<Longrightarrow> name_inv (step e ev s)"
proof (cases ev)
  case (Resume i st)
  assume n: "name_inv s"
  then show ?thesis using Resume by (simp add: name_inv_def resume_names)
next
  case (WorkerMessage m)
  assume "name_inv s" then show ?thesis using WorkerMessage
    by (cases m) (auto simp: name_inv_def handler_defs coord_defs Let_def split: prod.splits)
qed (simp_all add: name_inv_def enqueue_fields invokeAgent_frame handler_defs
       setAssistantName_def coord_defs Let_def)

lemma run_name_inv: "name_inv s \<Longrightarrow> name_inv (run e evs s)"
  by (induction evs rule: rev_induct) (simp_all add: run_def step_name_inv)

lemma init_name_inv: "name_inv (init name prov url key mdl mt store)"
  by (simp add: name_inv_def init_def)

subsection \<open>The order of draining\<close>

text \<open>What \<open>processQueue\<close> does, case by case.\<close>

lemma processQueue_idle:
  "processing s \<or> messageQueue s = [] \<Longrightarrow> processQueue e s = s"
  by (auto simp: processQueue_def)

lemma processQueue_drop:
  assumes "\<not> processing s" "messageQueue s = m # rest" "\<not> isConfigured s"
  shows "messageQueue (processQueue e s) = rest" "\<not> processing (processQueue e s)"
    "dequeued (processQueue e s) = dequeued s @ [(m, False)]"
    "calls (processQueue e s) = calls s" "suspended (processQueue e s) = suspended s"
  using assms by (simp_all add: processQueue_def emit_def)

lemma processQueue_invoke:
  assumes "\<not> processing s" "messageQueue s = m # rest" "isConfigured s"
  shows "messageQueue (processQueue e s) = rest" "processing (processQueue e s)"
    "dequeued (processQueue e s) = dequeued s @ [(m, True)]"
    "calls (processQueue e s) = calls s @ [(FromQueue, groupId m, content m)]"
    "\<exists>k. suspended (processQueue e s) = suspended s @ [k] \<and> from_queue k \<and>
         group_of k = groupId m \<and> \<not> is_enqueue k"
proof -
  let ?t = "s\<lparr>processing := True, messageQueue := rest, dequeued := dequeued s @ [(m, True)]\<rparr>"
  have p: "processQueue e s = invokeAgent e FromQueue (groupId m) (content m) ?t"
    using assms by (simp add: processQueue_def)
  show "messageQueue (processQueue e s) = rest" "processing (processQueue e s)"
    "dequeued (processQueue e s) = dequeued s @ [(m, True)]"
    "calls (processQueue e s) = calls s @ [(FromQueue, groupId m, content m)]"
    by (simp_all add: p invokeAgent_frame)
  show "\<exists>k. suspended (processQueue e s) = suspended s @ [k] \<and> from_queue k \<and>
         group_of k = groupId m \<and> \<not> is_enqueue k"
    using invokeAgent_suspended[of e FromQueue "groupId m" "content m" ?t] by (simp add: p)
qed

lemma processQueue_cases:
  obtains (idle) "processing s \<or> messageQueue s = []"
  | (drop) m rest where "\<not> processing s" "messageQueue s = m # rest" "\<not> isConfigured s"
  | (invoke) m rest where "\<not> processing s" "messageQueue s = m # rest" "isConfigured s"
  by (cases "messageQueue s") auto

lemma processQueue_calls_inv: "calls_inv s \<Longrightarrow> calls_inv (processQueue e s)"
proof (cases s rule: processQueue_cases)
  case idle
  assume "calls_inv s" then show ?thesis using idle by (simp add: processQueue_idle)
next
  case (drop m rest)
  assume "calls_inv s" then show ?thesis using processQueue_drop[OF drop, of e]
    by (simp add: calls_inv_def queue_calls_def invoked_def)
next
  case (invoke m rest)
  assume "calls_inv s" then show ?thesis using processQueue_invoke[OF invoke, of e]
    by (simp add: calls_inv_def queue_calls_def invoked_def call_of_def)
qed

lemma processQueue_dispatch_inv: "dispatch_inv s \<Longrightarrow> dispatch_inv (processQueue e s)"
proof (cases s rule: processQueue_cases)
  case idle
  assume "dispatch_inv s" then show ?thesis using idle by (simp add: processQueue_idle)
next
  case (drop m rest)
  assume "dispatch_inv s" then show ?thesis using processQueue_drop[OF drop, of e]
    by (simp add: dispatch_inv_def queue_calls_def queue_dispatches_def pending_def
          processQueue_fields)
next
  case (invoke m rest)
  assume d: "dispatch_inv s"
  obtain k where k: "suspended (processQueue e s) = suspended s @ [k]" "from_queue k"
      "group_of k = groupId m"
    using processQueue_invoke(5)[OF invoke, of e] by blast
  have "subseq ((queue_dispatches s @ pending s) @ [groupId m])
          (map fst (queue_calls s) @ [groupId m])"
    using d unfolding dispatch_inv_def by (intro list_emb_append_mono) simp_all
  then show ?thesis using processQueue_invoke(4)[OF invoke, of e] k
    by (simp add: dispatch_inv_def queue_calls_def queue_dispatches_def pending_def
          processQueue_fields)
qed

text \<open>The four invariants of the draining together.\<close>

lemma finally_drain:
  assumes "queue_inv s" "calls_inv s" "dispatch_inv s"
  shows "calls_inv (processQueue_finally e s)" "dispatch_inv (processQueue_finally e s)"
proof -
  have c: "calls_inv (s\<lparr>processing := False\<rparr>)"
    using assms by (simp add: calls_inv_def queue_calls_def invoked_def)
  have d: "dispatch_inv (s\<lparr>processing := False\<rparr>)"
    using assms by (simp add: dispatch_inv_def queue_calls_def queue_dispatches_def pending_def)
  show "calls_inv (processQueue_finally e s)"
    using c by (simp add: processQueue_finally_def Let_def processQueue_calls_inv)
  show "dispatch_inv (processQueue_finally e s)"
    using d by (simp add: processQueue_finally_def Let_def processQueue_dispatch_inv)
qed

lemma pending_remove:
  assumes f: "flag_inv s" and i: "i < length (suspended s)" and q: "from_queue (suspended s ! i)"
  shows "filter from_queue (suspended s) = [suspended s ! i]"
    "filter from_queue (take i (suspended s) @ drop (Suc i) (suspended s)) = []"
    "processing s"
proof -
  let ?xs = "suspended s"
  have d: "filter from_queue ?xs =
      filter from_queue (take i ?xs) @ [?xs ! i] @ filter from_queue (drop (Suc i) ?xs)"
    using filter_remove[OF i, of from_queue] q by simp
  have "length (filter from_queue ?xs) \<le> 1"
    using f by (simp add: flag_inv_def dispatching_def split: if_splits)
  then have e: "filter from_queue (take i ?xs) = [] \<and> filter from_queue (drop (Suc i) ?xs) = []"
    unfolding d by simp
  show "filter from_queue ?xs = [?xs ! i]" using d e by simp
  show "filter from_queue (take i ?xs @ drop (Suc i) ?xs) = []" using e by simp
  have "dispatching s = 1" using d e by (simp add: dispatching_def)
  then show "processing s" using f by (simp add: flag_inv_def split: if_splits)
qed

lemma enqueue_remove:
  assumes i: "i < length (suspended s)" and q: "is_enqueue (suspended s ! i)"
  shows "filter from_queue (take i (suspended s) @ drop (Suc i) (suspended s)) =
         filter from_queue (suspended s)"
proof -
  have "\<not> from_queue (suspended s ! i)" using q by (cases "suspended s ! i") simp_all
  then show ?thesis using filter_remove[OF i, of from_queue] by simp
qed

lemma subseq_butlast: "subseq (xs @ ys) zs \<Longrightarrow> subseq xs zs"
proof -
  assume a: "subseq (xs @ ys) zs"
  have "subseq xs (xs @ ys)" by (rule prefix_imp_subseq) simp
  also note a
  finally show ?thesis .
qed

lemma resume_drain:
  assumes qi: "queue_inv s" and fi: "flag_inv s" and ci: "calls_inv s" and di: "dispatch_inv s"
    and i: "i < length (suspended s)"
  shows "calls_inv (resume e (suspended s ! i) st
           (s\<lparr>suspended := take i (suspended s) @ drop (Suc i) (suspended s)\<rparr>)) \<and>
         dispatch_inv (resume e (suspended s ! i) st
           (s\<lparr>suspended := take i (suspended s) @ drop (Suc i) (suspended s)\<rparr>))"
proof -
  let ?k = "suspended s ! i"
  let ?s = "s\<lparr>suspended := take i (suspended s) @ drop (Suc i) (suspended s)\<rparr>"
  have q1: "queue_inv ?s" using qi by (simp add: queue_inv_def)
  have c1: "calls_inv ?s" using ci by (simp add: calls_inv_def queue_calls_def invoked_def)
  show ?thesis
  proof (cases "queue_work ?k")
    case False
    have "core ?s = core s" using core_remove[OF i False] .
    then have "calls_inv ?s" "dispatch_inv ?s" using ci di core_invs by blast+
    then show ?thesis using core_invs[OF core_resume[OF False, of e st ?s]] by simp
  next
    case True
    show ?thesis
    proof (cases "from_queue ?k")
      case False
      then have enq: "is_enqueue ?k" using True by (simp add: queue_work_def)
      then obtain m where k: "?k = KEnqueueSave m" by (cases ?k) simp_all
      have d1: "dispatch_inv ?s"
        using di enqueue_remove[OF i enq]
        by (simp add: dispatch_inv_def pending_def queue_calls_def queue_dispatches_def)
      have c2: "calls_inv (emit (EvMessage m) (saveMessage m ?s))"
        using c1 by (simp add: calls_inv_def queue_calls_def invoked_def coord_defs)
      have d2: "dispatch_inv (emit (EvMessage m) (saveMessage m ?s))"
        using d1 by (simp add: dispatch_inv_def pending_def queue_calls_def queue_dispatches_def
              coord_defs)
      show ?thesis using k c1 d1 c2 d2
        by (cases st) (simp_all add: processQueue_calls_inv processQueue_dispatch_inv)
    next
      case fq: True
      have p: "pending s = [group_of ?k]" "pending ?s = []"
        using pending_remove[OF fi i fq] by (simp_all add: pending_def)
      have d1: "dispatch_inv ?s"
        using di p subseq_butlast[of "queue_dispatches s" "pending s" "map fst (queue_calls s)"]
        by (simp add: dispatch_inv_def queue_calls_def queue_dispatches_def)
      have fin: "calls_inv (invokeAgent_settled e FromQueue ?s) \<and>
                 dispatch_inv (invokeAgent_settled e FromQueue ?s)"
        using finally_drain[OF q1 c1 d1] by (simp add: invokeAgent_settled_def)
      have restore: "pending (suspend k' t) = [group_of ?k] \<Longrightarrow> queue_calls (suspend k' t) = queue_calls s \<Longrightarrow>
                  queue_dispatches (suspend k' t) = queue_dispatches s \<Longrightarrow>
                  dispatch_inv (suspend k' t)" for k' t
        using di p by (simp add: dispatch_inv_def)
      show ?thesis
      proof (cases ?k)
        case (KInvokeSave orig g m)
        then have o: "orig = FromQueue" using fq by simp
        let ?t = "suspend (KInvokeMemory orig g) (emit (EvMessage m) (saveMessage m ?s))"
        have a: "calls_inv ?t"
          using c1 by (simp add: calls_inv_def queue_calls_def invoked_def coord_defs)
        have "pending ?t = [group_of ?k]"
          using p(2) KInvokeSave o by (simp add: pending_def coord_defs)
        then have b: "dispatch_inv ?t"
          by (intro restore) (simp_all add: queue_calls_def queue_dispatches_def coord_defs)
        show ?thesis using KInvokeSave o a b fin by (cases st) simp_all
      next
        case (KInvokeMemory orig g)
        then have o: "orig = FromQueue" using fq by simp
        have a: "calls_inv (suspend (KInvokeBuild orig g mem) ?s)" for mem
          using c1 by (simp add: calls_inv_def queue_calls_def invoked_def coord_defs)
        have "pending (suspend (KInvokeBuild orig g mem) ?s) = [group_of ?k]" for mem
          using p(2) KInvokeMemory o by (simp add: pending_def coord_defs)
        then have b: "dispatch_inv (suspend (KInvokeBuild orig g mem) ?s)" for mem
          by (intro restore) (simp_all add: queue_calls_def queue_dispatches_def coord_defs)
        show ?thesis using KInvokeMemory a b by simp
      next
        case (KInvokeBuild orig g memory)
        then have o: "orig = FromQueue" using fq by simp
        let ?t = "postMessage (invoke_envelope e g memory ?s)
                    (?s\<lparr>dispatched := dispatched ?s @ [(orig, g)]\<rparr>)"
        have q2: "queue_inv ?t" using q1 by (simp add: queue_inv_def coord_defs)
        have c2: "calls_inv ?t"
          using c1 by (simp add: calls_inv_def queue_calls_def invoked_def coord_defs)
        have d2: "dispatch_inv ?t"
          using di p KInvokeBuild o
          by (simp add: dispatch_inv_def queue_calls_def queue_dispatches_def pending_def coord_defs)
        have "calls_inv (invokeAgent_settled e FromQueue ?t) \<and>
              dispatch_inv (invokeAgent_settled e FromQueue ?t)"
          using finally_drain[OF q2 c2 d2] by (simp add: invokeAgent_settled_def)
        then show ?thesis using KInvokeBuild o fin by (cases st) simp_all
      qed (use fq in simp_all)
    qed
  qed
qed

lemma step_drain:
  assumes qi: "queue_inv s" and fi: "flag_inv s" and ci: "calls_inv s" and di: "dispatch_inv s"
  shows "calls_inv (step e ev s) \<and> dispatch_inv (step e ev s)"
proof (cases ev)
  case (Arrive m)
  have "queue_calls (enqueue e m s) = queue_calls s" "invoked (enqueue e m s) = invoked s"
    "queue_dispatches (enqueue e m s) = queue_dispatches s" "pending (enqueue e m s) = pending s"
    by (simp_all add: queue_calls_def queue_dispatches_def pending_def invoked_def enqueue_fields)
       (simp add: enqueue_def suspend_def Let_def)
  then show ?thesis using ci di Arrive
    by (simp add: calls_inv_def dispatch_inv_def)
next
  case (Resume i st)
  show ?thesis using Resume ci di resume_drain[OF qi fi ci di, of i e st] by simp
next
  case (SchedulerFire g p)
  show ?thesis using ci di SchedulerFire core_invs[OF core_scheduler] by simp
next
  case (WorkerMessage m)
  show ?thesis using ci di WorkerMessage core_invs[OF core_handler] core_invs[OF core_handled]
    by simp
next
  case (CompactContext g)
  show ?thesis using ci di CompactContext core_invs[OF core_public(1)] by simp
next
  case (NewSession g)
  show ?thesis using ci di NewSession core_invs[OF core_public(2)] by simp
next
  case (SetModel v)
  show ?thesis using ci di SetModel core_invs[OF core_public(3)] by simp
next
  case (SetAssistantName v)
  show ?thesis using ci di SetAssistantName core_invs[OF core_public(4)] by simp
qed (use ci di in \<open>simp_all add: calls_inv_def dispatch_inv_def queue_calls_def
       queue_dispatches_def pending_def invoked_def\<close>)

lemma run_drain:
  assumes "queue_inv s" "flag_inv s" "calls_inv s" "dispatch_inv s"
  shows "calls_inv (run e evs s) \<and> dispatch_inv (run e evs s)"
proof (induction evs rule: rev_induct)
  case Nil
  show ?case using assms by (simp add: run_def)
next
  case (snoc ev evs)
  show ?case
    using step_drain[where s="run e evs s" and e=e and ev=ev] snoc
      run_queue_inv[OF assms(1), of e evs] run_flag_inv[OF assms(2), of e evs]
    by (simp add: run_snoc)
qed

lemma init_drain:
  "calls_inv (init name prov url key mdl mt store)"
  "dispatch_inv (init name prov url key mdl mt store)"
  "posted_inv (init name prov url key mdl mt store)"
  by (simp_all add: calls_inv_def dispatch_inv_def posted_inv_def queue_calls_def
        queue_dispatches_def pending_def invoked_def invoke_groups_def init_def)

text \<open>The \<open>invoke\<close> envelopes in the worker's inbox are the recorded dispatches.\<close>

lemma settled_posted:
  "posted (invokeAgent_settled e orig s) = posted s"
  "dispatched (invokeAgent_settled e orig s) = dispatched s"
  by (cases orig; simp add: invokeAgent_settled_def processQueue_finally_def Let_def
        processQueue_fields)+

lemma resume_posted_inv: "posted_inv s \<Longrightarrow> posted_inv (resume e k st s)"
  by (cases k; cases st)
     (auto simp: posted_inv_def invoke_groups_def settled_posted processQueue_fields
        handler_defs coord_defs Let_def invoke_envelope_def compact_envelope_def
        split: prod.splits)

lemma step_posted_inv: "posted_inv s \<Longrightarrow> posted_inv (step e ev s)"
proof (cases ev)
  case (Resume i st)
  assume "posted_inv s"
  then have "posted_inv (s\<lparr>suspended := take i (suspended s) @ drop (Suc i) (suspended s)\<rparr>)"
    by (simp add: posted_inv_def)
  then show ?thesis using Resume \<open>posted_inv s\<close> by (simp add: resume_posted_inv)
next
  case (WorkerMessage m)
  assume "posted_inv s" then show ?thesis using WorkerMessage
    by (cases m) (auto simp: posted_inv_def handler_defs coord_defs Let_def split: prod.splits)
qed (simp_all add: posted_inv_def enqueue_fields invokeAgent_frame handler_defs
       setAssistantName_def coord_defs Let_def)

lemma run_posted_inv: "posted_inv s \<Longrightarrow> posted_inv (run e evs s)"
  by (induction evs rule: rev_induct) (simp_all add: run_def step_posted_inv)

text \<open>The history field \<open>arrived\<close> holds the triggered messages of the schedule.\<close>

lemma resume_arrived: "arrived (resume e k st s) = arrived s"
  by (cases k; cases st)
     (auto simp: handler_defs coord_defs Let_def invokeAgent_settled_def processQueue_finally_def
        processQueue_fields split: prod.splits origin.splits)

lemma step_arrived:
  "arrived (step e ev s) = arrived s @
     (case ev of
        Arrive m \<Rightarrow> (if groupId m = DEFAULT_GROUP_ID \<or>
                          regexp_test (uc e) (triggerPattern s) (trim (content m))
                       then [m] else [])
      | _ \<Rightarrow> [])"
proof (cases ev)
  case (WorkerMessage m)
  then show ?thesis using core_fields(3)[OF core_handler] core_fields(3)[OF core_handled]
    by simp
qed (simp_all add: resume_arrived invokeAgent_frame enqueue_def suspend_def Let_def
       core_fields(3)[OF core_public(1)] core_fields(3)[OF core_public(2)] setAssistantName_def)

lemma run_arrived: "arrived (run e evs s) = arrived s @ arrivals e evs s"
proof (induction evs arbitrary: s)
  case Nil
  show ?case by (simp add: run_def)
next
  case (Cons ev evs)
  have r: "run e (ev # evs) s = run e evs (step e ev s)" by (simp add: run_def)
  show ?case unfolding r Cons step_arrived by (cases ev) simp_all
qed

text \<open>While the backend stays configured and no promise is rejected.\<close>

lemma isConfigured_simps:
  "isConfigured (s\<lparr>suspended := a\<rparr>) = isConfigured s"
  "isConfigured (s\<lparr>processing := b\<rparr>) = isConfigured s"
  "isConfigured (s\<lparr>dispatched := c\<rparr>) = isConfigured s"
  "isConfigured (s\<lparr>db := d\<rparr>) = isConfigured s"
  "isConfigured (s\<lparr>emitted := em\<rparr>) = isConfigured s"
  "isConfigured (s\<lparr>posted := po\<rparr>) = isConfigured s"
  "isConfigured (postMessage m s) = isConfigured s"
  "isConfigured (emit ev s) = isConfigured s"
  "isConfigured (saveMessage sm s) = isConfigured s"
  "isConfigured (suspend k s) = isConfigured s"
  "isConfigured (processQueue e s) = isConfigured s"
  "isConfigured (enqueue e im s) = isConfigured s"
  by (simp_all add: isConfigured_def coord_defs processQueue_fields enqueue_fields)

lemma processQueue_steady:
  assumes "isConfigured s" "list_all snd (dequeued s)"
    "map fst (queue_calls s) = queue_dispatches s @ pending s"
  shows "steady_inv (processQueue e s)"
proof (cases s rule: processQueue_cases)
  case idle
  then show ?thesis using assms by (auto simp: processQueue_idle steady_inv_def)
next
  case (drop m rest)
  then show ?thesis using assms by simp
next
  case (invoke m rest)
  obtain k where k: "suspended (processQueue e s) = suspended s @ [k]" "from_queue k"
      "group_of k = groupId m"
    using processQueue_invoke(5)[OF invoke, of e] by blast
  have "isConfigured (processQueue e s)"
    using assms(1) by (simp add: isConfigured_simps processQueue_fields)
  then show ?thesis using assms processQueue_invoke(1-4)[OF invoke, of e] k
    by (simp add: steady_inv_def queue_calls_def queue_dispatches_def pending_def
          processQueue_fields)
qed

lemma finally_steady:
  assumes "isConfigured s" "list_all snd (dequeued s)"
    "map fst (queue_calls s) = queue_dispatches s @ pending s"
  shows "steady_inv (processQueue_finally e s)"
proof -
  let ?t = "s\<lparr>processing := False\<rparr>"
  have a: "isConfigured ?t" "list_all snd (dequeued ?t)"
    "map fst (queue_calls ?t) = queue_dispatches ?t @ pending ?t"
    using assms by (simp_all add: isConfigured_simps queue_calls_def queue_dispatches_def pending_def)
  show ?thesis
  proof (cases "messageQueue s = []")
    case True
    then show ?thesis using a by (simp add: processQueue_finally_def steady_inv_def)
  next
    case False
    then show ?thesis using processQueue_steady[OF a, of e]
      by (simp add: processQueue_finally_def)
  qed
qed

lemma resume_steady:
  assumes fi: "flag_inv s" and si: "steady_inv s" and i: "i < length (suspended s)"
  shows "steady_inv (resume e (suspended s ! i) (Fulfil v)
           (s\<lparr>suspended := take i (suspended s) @ drop (Suc i) (suspended s)\<rparr>))"
proof -
  let ?k = "suspended s ! i"
  let ?s = "s\<lparr>suspended := take i (suspended s) @ drop (Suc i) (suspended s)\<rparr>"
  have cf: "isConfigured ?s" "list_all snd (dequeued ?s)"
    using si by (simp_all add: steady_inv_def isConfigured_simps)
  have j2: "map fst (queue_calls s) = queue_dispatches s @ pending s"
    using si by (simp add: steady_inv_def)
  show ?thesis
  proof (cases "queue_work ?k")
    case False
    have "core ?s = core s" using core_remove[OF i False] .
    then have "steady_inv ?s" using si core_invs by blast
    then show ?thesis using core_invs[OF core_resume[OF False, of e "Fulfil v" ?s]] by simp
  next
    case True
    show ?thesis
    proof (cases "from_queue ?k")
      case False
      then have enq: "is_enqueue ?k" using True by (simp add: queue_work_def)
      then obtain m where k: "?k = KEnqueueSave m" by (cases ?k) simp_all
      let ?t = "emit (EvMessage m) (saveMessage m ?s)"
      have "pending ?s = pending s" using enqueue_remove[OF i enq] by (simp add: pending_def)
      then have "isConfigured ?t" "list_all snd (dequeued ?t)"
        "map fst (queue_calls ?t) = queue_dispatches ?t @ pending ?t"
        using cf j2
        by (simp_all add: isConfigured_simps queue_calls_def queue_dispatches_def pending_def
              coord_defs)
      then show ?thesis using k processQueue_steady[of ?t e] by simp
    next
      case fq: True
      have p: "pending s = [group_of ?k]" "pending ?s = []" "processing s"
        using pending_remove[OF fi i fq] by (simp_all add: pending_def)
      show ?thesis
      proof (cases ?k)
        case (KInvokeSave orig g m)
        then have o: "orig = FromQueue" using fq by simp
        show ?thesis using KInvokeSave o cf j2 p
          by (simp add: steady_inv_def isConfigured_simps queue_calls_def queue_dispatches_def
                pending_def coord_defs)
      next
        case (KInvokeMemory orig g)
        then have o: "orig = FromQueue" using fq by simp
        show ?thesis using KInvokeMemory o cf j2 p
          by (simp add: steady_inv_def isConfigured_simps queue_calls_def queue_dispatches_def
                pending_def coord_defs)
      next
        case (KInvokeBuild orig g memory)
        then have o: "orig = FromQueue" using fq by simp
        let ?t = "postMessage (invoke_envelope e g memory ?s)
                    (?s\<lparr>dispatched := dispatched ?s @ [(orig, g)]\<rparr>)"
        have "isConfigured ?t" "list_all snd (dequeued ?t)"
          "map fst (queue_calls ?t) = queue_dispatches ?t @ pending ?t"
          using cf j2 p KInvokeBuild o
          by (simp_all add: isConfigured_simps queue_calls_def queue_dispatches_def pending_def
                coord_defs)
        then show ?thesis using KInvokeBuild o finally_steady[of ?t e]
          by (simp add: invokeAgent_settled_def)
      qed (use fq in simp_all)
    qed
  qed
qed

lemma step_steady:
  assumes fi: "flag_inv s" and si: "steady_inv s" and c: "calm ev"
  shows "steady_inv (step e ev s)"
proof (cases ev)
  case (Arrive m)
  have "queue_calls (enqueue e m s) = queue_calls s"
    "queue_dispatches (enqueue e m s) = queue_dispatches s" "pending (enqueue e m s) = pending s"
    "list_ex is_enqueue (suspended (enqueue e m s))"
    by (simp_all add: queue_calls_def queue_dispatches_def pending_def enqueue_fields)
       (simp_all add: enqueue_def suspend_def Let_def)
  then show ?thesis using si Arrive
    by (simp add: steady_inv_def isConfigured_simps enqueue_fields)
next
  case (Resume i st)
  then obtain v where "st = Fulfil v" using c by (cases st) simp_all
  then show ?thesis using Resume si resume_steady[OF fi si, of i e v] by simp
next
  case (SchedulerFire g p)
  show ?thesis using si SchedulerFire core_invs[OF core_scheduler] by simp
next
  case (WorkerMessage m)
  show ?thesis using si WorkerMessage core_invs[OF core_handler] core_invs[OF core_handled]
    by simp
next
  case (CompactContext g)
  show ?thesis using si CompactContext core_invs[OF core_public(1)] by simp
next
  case (NewSession g)
  show ?thesis using si NewSession core_invs[OF core_public(2)] by simp
next
  case (SetModel v)
  show ?thesis using si SetModel core_invs[OF core_public(3)] by simp
next
  case (SetAssistantName v)
  show ?thesis using si SetAssistantName core_invs[OF core_public(4)] by simp
qed (use c in simp_all)

lemma run_steady:
  assumes "flag_inv s" "steady_inv s" "list_all calm evs"
  shows "steady_inv (run e evs s)"
  using assms(3)
proof (induction evs rule: rev_induct)
  case Nil
  show ?case using assms by (simp add: run_def)
next
  case (snoc ev evs)
  then have "steady_inv (run e evs s)" "calm ev" by simp_all
  then show ?case
    using step_steady[where s="run e evs s" and e=e and ev=ev] run_flag_inv[OF assms(1), of e evs]
    by (simp add: run_snoc)
qed

lemma init_steady:
  "isConfigured (init name prov url key mdl mt store) \<Longrightarrow>
   steady_inv (init name prov url key mdl mt store)"
  by (simp add: steady_inv_def queue_calls_def queue_dispatches_def pending_def init_def)

lemma steady_prefix:
  assumes q: "queue_inv s" and f: "flag_inv s" and c: "calls_inv s" and st: "steady_inv s"
  shows "invoked s = take (length (invoked s)) (arrived s)"
    "map fst (queue_calls s) = queue_dispatches s @ pending s"
    "length (pending s) \<le> 1"
    "filter queue_work (suspended s) = [] \<Longrightarrow>
       messageQueue s = [] \<and> queue_calls s = map call_of (arrived s) \<and>
       queue_dispatches s = map groupId (arrived s)"
proof -
  have "filter snd (dequeued s) = dequeued s"
    using st by (simp add: steady_inv_def list_all_iff)
  then have inv: "invoked s @ messageQueue s = arrived s"
    using q by (simp add: invoked_def queue_inv_def)
  then show "invoked s = take (length (invoked s)) (arrived s)"
    by (metis append_eq_conv_conj)
  show j2: "map fst (queue_calls s) = queue_dispatches s @ pending s"
    using st by (simp add: steady_inv_def)
  show "length (pending s) \<le> 1"
    using f by (simp add: flag_inv_def dispatching_def pending_def split: if_splits)
  assume w: "filter queue_work (suspended s) = []"
  have fq: "filter from_queue (suspended s) = []"
    using w filter_from_queue[of "suspended s"] by simp
  have en: "\<not> list_ex is_enqueue (suspended s)"
    using w filter_is_enqueue[of "suspended s"] by (simp add: list_ex_filter)
  have np: "\<not> processing s"
    using f fq by (simp add: flag_inv_def dispatching_def split: if_splits)
  have mq: "messageQueue s = []"
    using st en np by (simp add: steady_inv_def)
  have ia: "invoked s = arrived s" using inv mq by simp
  have qc: "queue_calls s = map call_of (arrived s)"
    using c ia by (simp add: calls_inv_def)
  have "queue_dispatches s = map fst (queue_calls s)"
    using j2 fq by (simp add: pending_def)
  then have "queue_dispatches s = map groupId (arrived s)"
    using qc by (simp add: call_of_def comp_def)
  then show "messageQueue s = [] \<and> queue_calls s = map call_of (arrived s) \<and>
       queue_dispatches s = map groupId (arrived s)"
    using mq qc by simp
qed

lemma trim_first: "trim (js ''@Andy first'') = js ''@Andy first''"
  by (simp add: trim_def js_def is_space_def)

lemma trim_second: "trim (js ''@Andy second'') = js ''@Andy second''"
  by (simp add: trim_def js_def is_space_def)

lemma trim_third: "trim (js ''@Andy third'') = js ''@Andy third''"
  by (simp add: trim_def js_def is_space_def)

lemma mentions_first: "regexp_test u (buildTriggerPattern ASSISTANT_NAME) (js ''@Andy first'')"
  unfolding regexp_test_trigger mentions_def name_codes
  by (rule exI[of _ 0]) (simp add: js_def at_name_def canonicalize_def word_boundary_def is_word_at_def is_word_def)

lemma mentions_second: "regexp_test u (buildTriggerPattern ASSISTANT_NAME) (js ''@Andy second'')"
  unfolding regexp_test_trigger mentions_def name_codes
  by (rule exI[of _ 0]) (simp add: js_def at_name_def canonicalize_def word_boundary_def is_word_at_def is_word_def)

lemma mentions_third: "regexp_test u (buildTriggerPattern ASSISTANT_NAME) (js ''@Andy third'')"
  unfolding regexp_test_trigger mentions_def name_codes
  by (rule exI[of _ 0]) (simp add: js_def at_name_def canonicalize_def word_boundary_def is_word_at_def is_word_def)

lemma is_invoke_envelope [simp]: "is_invoke (invoke_envelope e g memory s)"
  by (simp add: invoke_envelope_def Let_def)

lemma not_scheduled:
  "\<not> startsWith (js ''@Andy first'') (js ''[SCHEDULED TASK]'')"
  "\<not> startsWith (js ''@Andy second'') (js ''[SCHEDULED TASK]'')"
  "\<not> startsWith (js ''@Andy third'') (js ''[SCHEDULED TASK]'')"
  by (simp_all add: startsWith_def js_def)

lemma key_nonempty: "js ''sk-test'' \<noteq> []"
  by (simp add: js_def)

lemmas eval_defs = enqueue_def processQueue_def processQueue_finally_def invokeAgent_settled_def
  invokeAgent_def isConfigured_def coord_defs Let_def

lemma group_not_main: "js ''tg:42'' \<noteq> DEFAULT_GROUP_ID" "js ''tg:7'' \<noteq> DEFAULT_GROUP_ID"
  by (simp_all add: DEFAULT_GROUP_ID_def js_def)

lemmas demo_facts = trim_first trim_second trim_third mentions_first mentions_second
  mentions_third not_scheduled key_nonempty group_not_main

text \<open>
  Claim C5. The queue is drained in arrival order. For every schedule of the coordinator,
  started from its initial state:

  \<^item> the history field \<open>arrived\<close> holds the messages of the schedule that passed the
    trigger check, in the order of their arrival, and the messages shifted from the
    queue so far, followed by the messages still queued, are these messages in that
    order;
  \<^item> the calls of \<open>invokeAgent\<close> made by \<open>processQueue\<close> received, in the order of the
    calls, the group and the content of the messages that \<open>processQueue\<close> shifted for
    invocation, and these messages are a subsequence of the arrivals;
  \<^item> the \<open>invoke\<close> envelopes that these calls put in the worker's inbox follow the order
    of the calls, and the inbox holds the recorded envelopes in the recorded order.

  As long as the backend is configured and no promise is rejected, moreover: the
  messages shifted for invocation are an initial segment of the arrivals; every call
  but a suspended last one has posted its envelope; and once no \<open>enqueue\<close> and no call
  made by \<open>processQueue\<close> is suspended, the queue is empty and every triggered message
  of the schedule has been handed to \<open>invokeAgent\<close> and posted to the worker, in the
  order of arrival.
\<close>

theorem fifo_order:
  "arrived (run e evs (init name prov url key mdl mt store)) = arrivals e evs (init name prov url key mdl mt store) \<and>
   map fst (dequeued (run e evs (init name prov url key mdl mt store))) @ messageQueue (run e evs (init name prov url key mdl mt store)) = arrivals e evs (init name prov url key mdl mt store) \<and>
   queue_calls (run e evs (init name prov url key mdl mt store)) = map call_of (invoked (run e evs (init name prov url key mdl mt store))) \<and>
   subseq (invoked (run e evs (init name prov url key mdl mt store))) (arrivals e evs (init name prov url key mdl mt store)) \<and>
   subseq (queue_dispatches (run e evs (init name prov url key mdl mt store))) (map fst (queue_calls (run e evs (init name prov url key mdl mt store)))) \<and>
   invoke_groups (posted (run e evs (init name prov url key mdl mt store))) = map snd (dispatched (run e evs (init name prov url key mdl mt store))) \<and>
   (isConfigured (init name prov url key mdl mt store) \<and> list_all calm evs \<longrightarrow>
      invoked (run e evs (init name prov url key mdl mt store)) = take (length (invoked (run e evs (init name prov url key mdl mt store)))) (arrivals e evs (init name prov url key mdl mt store)) \<and>
      map fst (queue_calls (run e evs (init name prov url key mdl mt store))) = queue_dispatches (run e evs (init name prov url key mdl mt store)) @ pending (run e evs (init name prov url key mdl mt store)) \<and>
      length (pending (run e evs (init name prov url key mdl mt store))) \<le> 1 \<and>
      (filter queue_work (suspended (run e evs (init name prov url key mdl mt store))) = [] \<longrightarrow>
         messageQueue (run e evs (init name prov url key mdl mt store)) = [] \<and>
         queue_calls (run e evs (init name prov url key mdl mt store)) = map call_of (arrivals e evs (init name prov url key mdl mt store)) \<and>
         queue_dispatches (run e evs (init name prov url key mdl mt store)) = map groupId (arrivals e evs (init name prov url key mdl mt store))))"
proof -
  let ?i = "init name prov url key mdl mt store"
  let ?s = "run e evs ?i"
  have ar: "arrived ?s = arrivals e evs ?i"
    using run_arrived[of e evs ?i] by (simp add: init_def)
  have q: "queue_inv ?s" by (rule run_queue_inv[OF init_queue_inv])
  have f: "flag_inv ?s" by (rule run_flag_inv[OF init_flag_inv])
  have cd: "calls_inv ?s \<and> dispatch_inv ?s"
    by (rule run_drain[OF init_queue_inv init_flag_inv init_drain(1) init_drain(2)])
  have p: "posted_inv ?s" by (rule run_posted_inv[OF init_drain(3)])
  have sub: "subseq (queue_dispatches ?s) (map fst (queue_calls ?s))"
    using cd subseq_butlast[of "queue_dispatches ?s" "pending ?s"] by (simp add: dispatch_inv_def)
  have steady: "invoked ?s = take (length (invoked ?s)) (arrivals e evs ?i) \<and>
      map fst (queue_calls ?s) = queue_dispatches ?s @ pending ?s \<and>
      length (pending ?s) \<le> 1 \<and>
      (filter queue_work (suspended ?s) = [] \<longrightarrow>
         messageQueue ?s = [] \<and> queue_calls ?s = map call_of (arrivals e evs ?i) \<and>
         queue_dispatches ?s = map groupId (arrivals e evs ?i))"
    if c: "isConfigured ?i" "list_all calm evs"
  proof -
    have st: "steady_inv ?s"
      by (rule run_steady[OF init_flag_inv init_steady[OF c(1)] c(2)])
    show ?thesis
      using steady_prefix[OF q f conjunct1[OF cd] st] unfolding ar by blast
  qed
  have a: "map fst (dequeued ?s) @ messageQueue ?s = arrivals e evs ?i"
    using q ar by (simp add: queue_inv_def)
  have b: "queue_calls ?s = map call_of (invoked ?s)" using cd by (simp add: calls_inv_def)
  have c: "subseq (invoked ?s) (arrivals e evs ?i)" using invoked_subseq[OF q] ar by simp
  have d: "invoke_groups (posted ?s) = map snd (dispatched ?s)" using p by (simp add: posted_inv_def)
  show ?thesis using ar a b c sub d steady by blast
qed

lemma burst_eval:
  "filter queue_work (suspended (run demo_env burst configured)) = []"
  "arrivals demo_env burst configured = [tg_first, tg_other]"
  by (simp_all add: run_def burst_def configured_def init_def tg_first_def tg_other_def
        demo_env_def eval_defs demo_facts queue_work_def)

theorem fifo_order_witness:
  "isConfigured configured \<and> list_all calm burst \<and>
   filter queue_work (suspended (run demo_env burst configured)) = [] \<and>
   messageQueue (run demo_env burst configured) = [] \<and>
   queue_calls (run demo_env burst configured) =
     [(js ''tg:42'', js ''@Andy first''), (js ''tg:7'', js ''@Andy third'')] \<and>
   queue_dispatches (run demo_env burst configured) = [js ''tg:42'', js ''tg:7''] \<and>
   invoke_groups (posted (run demo_env burst configured)) =
     map snd (dispatched (run demo_env burst configured))"
proof -
  have c: "isConfigured configured"
    by (simp add: configured_def init_def isConfigured_def key_nonempty)
  have l: "list_all calm burst" by (simp add: burst_def)
  note t = fifo_order[of demo_env burst ASSISTANT_NAME Anthropic "[]" "js ''sk-test''"
        "js ''claude-sonnet-4-6''" 8096 "[]", folded configured_def, unfolded burst_eval(2)]
  have k: "messageQueue (run demo_env burst configured) = [] \<and>
      queue_calls (run demo_env burst configured) = map call_of [tg_first, tg_other] \<and>
      queue_dispatches (run demo_env burst configured) = map groupId [tg_first, tg_other] \<and>
      invoke_groups (posted (run demo_env burst configured)) =
        map snd (dispatched (run demo_env burst configured))"
    using t c l burst_eval(1) by blast
  show ?thesis
    using k c l burst_eval(1) by (simp add: call_of_def tg_first_def tg_other_def)
qed

subsection \<open>Trigger, missing configuration, overlapping invocations\<close>

text \<open>
  Claim C4. The trigger predicate. The pattern built for a name matches a text exactly
  when the text mentions the name (an at-sign at the start or behind white space, the
  name up to case, a word boundary behind it); in every reachable state \<open>enqueue\<close>
  appends the message to the queue exactly when its group is the default local group or
  its trimmed content mentions the assistant's name; and the pattern of the default name
  matches \<open>@Andy\<close> and \<open>hi @andy can you\<close> and does not match \<open>@Andyson\<close>.
\<close>

theorem trigger_predicate:
  "regexp_test (uc e) (buildTriggerPattern name) t = mentions (uc e) name t \<and>
   messageQueue (enqueue e msg (run e evs (init name prov url key mdl mt store))) =
     (if groupId msg = DEFAULT_GROUP_ID \<or>
         mentions (uc e) (assistantName (run e evs (init name prov url key mdl mt store)))
           (trim (content msg))
      then messageQueue (run e evs (init name prov url key mdl mt store)) @ [msg]
      else messageQueue (run e evs (init name prov url key mdl mt store))) \<and>
   regexp_test (uc e) (buildTriggerPattern ASSISTANT_NAME) (js ''@Andy'') \<and>
   regexp_test (uc e) (buildTriggerPattern ASSISTANT_NAME) (js ''hi @andy can you'') \<and>
   \<not> regexp_test (uc e) (buildTriggerPattern ASSISTANT_NAME) (js ''@Andyson'')"
proof -
  let ?s = "run e evs (init name prov url key mdl mt store)"
  have "name_inv ?s" by (rule run_name_inv[OF init_name_inv])
  then have "triggerPattern ?s = buildTriggerPattern (assistantName ?s)"
    by (simp add: name_inv_def)
  then have "messageQueue (enqueue e msg ?s) =
     (if groupId msg = DEFAULT_GROUP_ID \<or> mentions (uc e) (assistantName ?s) (trim (content msg))
      then messageQueue ?s @ [msg] else messageQueue ?s)"
    by (simp add: enqueue_def suspend_def Let_def regexp_test_trigger)
  then show ?thesis
    using regexp_test_trigger example_at_andy example_hi_andy example_andyson by blast
qed

text \<open>
  Claim C8. When \<open>processQueue\<close> runs with a message queued, no invocation being
  dispatched and the backend not configured, it removes the head of the queue, records
  it as dropped, emits the configuration error of the provider for the message's group,
  posts nothing to the worker, suspends no call, and leaves the state, the store and the
  \<open>processing\<close> flag as they were; the dropped message is not queued again.
\<close>

theorem unconfigured_drops_head:
  assumes "\<not> processing s" and "messageQueue s = msg # rest" and "\<not> isConfigured s"
  shows "messageQueue (processQueue e s) = rest \<and>
         dequeued (processQueue e s) = dequeued s @ [(msg, False)] \<and>
         invoked (processQueue e s) = invoked s \<and>
         emitted (processQueue e s) = emitted s @
           [EvError (groupId msg)
              (if provider s = Anthropic
               then js ''API key not configured. Go to Settings to add your Anthropic API key.''
               else js ''Ollama URL not configured. Go to Settings to configure your Ollama Host.'')] \<and>
         posted (processQueue e s) = posted s \<and>
         suspended (processQueue e s) = suspended s \<and>
         state (processQueue e s) = state s \<and>
         db (processQueue e s) = db s \<and>
         \<not> processing (processQueue e s)"
  using assms by (simp add: processQueue_def emit_def invoked_def)

theorem unconfigured_drops_head_witness:
  "\<not> processing (unconfigured\<lparr>messageQueue := [tg_first]\<rparr>) \<and>
   messageQueue (unconfigured\<lparr>messageQueue := [tg_first]\<rparr>) = [tg_first] \<and>
   \<not> isConfigured (unconfigured\<lparr>messageQueue := [tg_first]\<rparr>) \<and>
   messageQueue (processQueue demo_env (unconfigured\<lparr>messageQueue := [tg_first]\<rparr>)) = [] \<and>
   emitted (processQueue demo_env (unconfigured\<lparr>messageQueue := [tg_first]\<rparr>)) =
     [EvError (js ''tg:42'')
        (js ''API key not configured. Go to Settings to add your Anthropic API key.'')] \<and>
   posted (processQueue demo_env (unconfigured\<lparr>messageQueue := [tg_first]\<rparr>)) = [] \<and>
   suspended (processQueue demo_env (unconfigured\<lparr>messageQueue := [tg_first]\<rparr>)) = []"
proof -
  let ?s = "unconfigured\<lparr>messageQueue := [tg_first]\<rparr>"
  have h1: "\<not> processing ?s" by (simp add: unconfigured_def init_def)
  have h2: "messageQueue ?s = tg_first # []" by simp
  have h3: "\<not> isConfigured ?s" by (simp add: unconfigured_def init_def isConfigured_def)
  show ?thesis
    using unconfigured_drops_head[OF h1 h2 h3, of demo_env] h1 h3
    by (simp add: unconfigured_def init_def tg_first_def)
qed


text \<open>
  The dispatches of the queue are serialised: in every reachable state the number of
  calls of \<open>invokeAgent\<close> that \<open>processQueue\<close> is awaiting is one while \<open>processing\<close>
  is set and none otherwise (\<open>dispatch_serialised\<close> above). The flag is released when
  that call settles, which is when the \<open>invoke\<close> envelope has been posted, not when the
  worker has answered it.
\<close>

text \<open>
  Claim C1, evaluated on the schedule \<open>two_arrivals\<close>: two triggered messages arrive,
  the second after the first invocation was posted and before any envelope came back
  from the worker. Both messages are invoked, two \<open>invoke\<close> envelopes are with the
  worker and none has been answered, and the \<open>processing\<close> flag is clear.
\<close>

theorem overlapping_invocations:
  "in_flight (run demo_env two_arrivals configured) = 2 \<and>
   handled (run demo_env two_arrivals configured) = 0 \<and>
   \<not> processing (run demo_env two_arrivals configured) \<and>
   invoked (run demo_env two_arrivals configured) = [tg_first, tg_second] \<and>
   length (posted (run demo_env two_arrivals configured)) = 2"
  by (simp add: run_def two_arrivals_def configured_def init_def tg_first_def tg_second_def
      demo_env_def eval_defs in_flight_def invoked_def
      demo_facts)

subsection \<open>The envelope handlers\<close>

text \<open>The envelope handlers, run without interleaving.\<close>

lemma resume_last:
  "n = length (suspended t) \<Longrightarrow> step e (Resume n st) (suspend k t) = resume e k st t"
  by (simp add: suspend_def)

lemma handle_response:
  "step e (WorkerMessage (Response g text)) s =
     suspend (KDeliverSave g text (reply_message e g text s))
       (s\<lparr>handled := Suc (handled s), ticks := Suc (Suc (ticks s))\<rparr>)"
  by (simp add: is_completion_def deliverResponse_def reply_message_def coord_defs Let_def)

lemma handle_error:
  "step e (WorkerMessage (Error g err)) s =
     suspend (KDeliverSave g (error_reply err) (reply_message e g (error_reply err) s))
       (s\<lparr>handled := Suc (handled s), ticks := Suc (Suc (ticks s))\<rparr>)"
  by (simp add: is_completion_def deliverResponse_def reply_message_def coord_defs Let_def)

lemma handle_compact_done:
  "step e (WorkerMessage (CompactDone g summary)) s = suspend (KCompactClear g summary) s"
  by (simp add: is_completion_def handleCompactDone_def)

lemma run2: "run e [a, b] s = step e b (step e a s)"
  by (simp add: run_def)

lemma run3: "run e [a, b, c] s = step e c (step e b (step e a s))"
  by (simp add: run_def)

lemma deliver_rejected:
  "state (run e [step1, Resume (length (suspended s)) Reject] s) = state s \<and>
   suspended (run e [step1, Resume (length (suspended s)) Reject] s) = suspended s \<and>
   emitted (run e [step1, Resume (length (suspended s)) Reject] s) = emitted s \<and>
   db (run e [step1, Resume (length (suspended s)) Reject] s) = db s"
  if "step1 = WorkerMessage (Response g text) \<or> step1 = WorkerMessage (Error g text) \<or>
      step1 = WorkerMessage (CompactDone g text)"
  using that
  by (auto simp: run2 handle_response handle_error handle_compact_done resume_last
        simp del: step.simps)

lemma deliver_fulfilled:
  assumes "n = length (suspended s)"
  shows "db (run e [WorkerMessage (Response g text), Resume n (Fulfil v), Resume n (Fulfil v')] s) =
           db s @ [reply_message e g text s]"
    "routed (run e [WorkerMessage (Response g text), Resume n (Fulfil v), Resume n (Fulfil v')] s) =
           routed s @ [RouterSend g text, RouterSetTyping g False]"
    "state (run e [WorkerMessage (Response g text), Resume n (Fulfil v), Resume n (Fulfil v')] s) = Idle"
    "last (emitted (run e [WorkerMessage (Response g text), Resume n (Fulfil v), Resume n (Fulfil v')] s)) =
           EvStateChange Idle"
    "suspended (run e [WorkerMessage (Response g text), Resume n (Fulfil v), Resume n (Fulfil v')] s) =
           suspended s"
proof -
  let ?m = "reply_message e g text s"
  let ?s1 = "s\<lparr>handled := Suc (handled s), ticks := Suc (Suc (ticks s))\<rparr>"
  have a: "step e (Resume n (Fulfil v)) (step e (WorkerMessage (Response g text)) s) =
      suspend (KDeliverSend g ?m) (router_send g text (saveMessage ?m ?s1))"
    using assms by (simp add: handle_response resume_last deliverResponse_saved_def
          del: step.simps)
  have b: "run e [WorkerMessage (Response g text), Resume n (Fulfil v), Resume n (Fulfil v')] s =
      deliverResponse_sent g ?m (router_send g text (saveMessage ?m ?s1))"
    unfolding run3 a using assms
    by (simp add: resume_last router_send_def saveMessage_def del: step.simps)
  show "db (run e [WorkerMessage (Response g text), Resume n (Fulfil v), Resume n (Fulfil v')] s) =
           db s @ [reply_message e g text s]"
    "routed (run e [WorkerMessage (Response g text), Resume n (Fulfil v), Resume n (Fulfil v')] s) =
           routed s @ [RouterSend g text, RouterSetTyping g False]"
    "state (run e [WorkerMessage (Response g text), Resume n (Fulfil v), Resume n (Fulfil v')] s) = Idle"
    "last (emitted (run e [WorkerMessage (Response g text), Resume n (Fulfil v), Resume n (Fulfil v')] s)) =
           EvStateChange Idle"
    "suspended (run e [WorkerMessage (Response g text), Resume n (Fulfil v), Resume n (Fulfil v')] s) =
           suspended s"
    unfolding b by (simp_all add: deliverResponse_sent_def coord_defs Let_def)
qed

lemma error_as_response:
  "run e (WorkerMessage (Error g err) # evs) s =
   run e (WorkerMessage (Response g (error_reply err)) # evs) s"
  by (simp add: run_def is_completion_def)

lemma compact_fulfilled:
  assumes "n = length (suspended s)"
  shows "run e [WorkerMessage (CompactDone g summary), Resume n (Fulfil v), Resume n (Fulfil v')] s =
     handleCompactDone_saved g summary (summary_message e g summary s)
       ((clearGroupMessages g s)\<lparr>ticks := Suc (Suc (ticks s))\<rparr>)"
proof -
  have a: "step e (Resume n (Fulfil v)) (step e (WorkerMessage (CompactDone g summary)) s) =
      handleCompactDone_cleared e g summary s"
    using assms by (simp add: handle_compact_done resume_last del: step.simps)
  have b: "handleCompactDone_cleared e g summary s =
      suspend (KCompactSave g summary (summary_message e g summary s))
        ((clearGroupMessages g s)\<lparr>ticks := Suc (Suc (ticks s))\<rparr>)"
    by (simp add: handleCompactDone_cleared_def summary_message_def clearGroupMessages_def
          ulid_def date_now_def suspend_def Let_def)
  show ?thesis unfolding run3 a b using assms
    by (simp add: resume_last clearGroupMessages_def del: step.simps)
qed

lemma window_single:
  "buildConversationMessages e g CONTEXT_WINDOW_SIZE (filter (\<lambda>m. groupId m \<noteq> g) store @ [m\<lparr>groupId := g\<rparr>])
     = [to_conversation e (m\<lparr>groupId := g\<rparr>)]"
  by (simp add: buildConversationMessages_def getRecentMessages_def CONTEXT_WINDOW_SIZE_def Let_def)

text \<open>
  When every promise that the handler awaits is fulfilled, and nothing else happens in
  between, each of the three envelopes leaves the coordinator idle.
\<close>

lemma completion_idle_when_fulfilled:
  assumes "n = length (suspended s)"
  shows "state (run e [WorkerMessage (Response g text), Resume n (Fulfil v), Resume n (Fulfil v')] s) = Idle"
    "state (run e [WorkerMessage (Error g err), Resume n (Fulfil v), Resume n (Fulfil v')] s) = Idle"
    "state (run e [WorkerMessage (CompactDone g summary), Resume n (Fulfil v), Resume n (Fulfil v')] s) = Idle"
  using deliver_fulfilled(3)[OF assms] compact_fulfilled[OF assms]
  by (simp_all add: error_as_response handleCompactDone_saved_def coord_defs Let_def)

lemma save_rejected_eval:
  "state (run demo_env save_rejected configured) = Thinking"
  "suspended (run demo_env save_rejected configured) = []"
  "in_flight (run demo_env save_rejected configured) = 0"
  "EvStateChange Idle \<notin> set (emitted (run demo_env save_rejected configured))"
  by (simp_all add: run_def save_rejected_def configured_def init_def tg_first_def
        demo_env_def eval_defs demo_facts in_flight_def is_completion_def deliverResponse_def)

text \<open>
  Claim C6, refuted. The handlers of the three envelopes that end an invocation or a
  compaction await the message store and the router outside any \<open>try\<close>. When the
  first promise a handler awaits is rejected, the handler ends there: the state is what
  it was before the envelope, no event was emitted, and no call remains suspended that
  could still make the transition. On the schedule \<open>save_rejected\<close> the worker's
  \<open>response\<close> is the answer to the only invocation; afterwards no invocation is in
  flight, nothing is suspended, and the coordinator is still in the state \<open>thinking\<close>,
  with no transition to \<open>idle\<close> ever emitted.
\<close>

theorem completion_not_idle:
  "state (run e [WorkerMessage (Response g text), Resume (length (suspended s)) Reject] s) = state s \<and>
   suspended (run e [WorkerMessage (Response g text), Resume (length (suspended s)) Reject] s) = suspended s \<and>
   state (run e [WorkerMessage (Error g text), Resume (length (suspended s)) Reject] s) = state s \<and>
   suspended (run e [WorkerMessage (Error g text), Resume (length (suspended s)) Reject] s) = suspended s \<and>
   state (run e [WorkerMessage (CompactDone g text), Resume (length (suspended s)) Reject] s) = state s \<and>
   suspended (run e [WorkerMessage (CompactDone g text), Resume (length (suspended s)) Reject] s) = suspended s \<and>
   state (run demo_env save_rejected configured) = Thinking \<and>
   suspended (run demo_env save_rejected configured) = [] \<and>
   in_flight (run demo_env save_rejected configured) = 0 \<and>
   EvStateChange Idle \<notin> set (emitted (run demo_env save_rejected configured))"
  using deliver_rejected[of "WorkerMessage (Response g text)" g "text" e s]
    deliver_rejected[of "WorkerMessage (Error g text)" g "text" e s]
    deliver_rejected[of "WorkerMessage (CompactDone g text)" g "text" e s]
    save_rejected_eval
  by simp

lemma compact_race_eval:
  "map content (filter (\<lambda>m. groupId m = js ''tg:42'') (db (run demo_env compact_race configured))) =
     [js ''@Andy first'', compacted_heading @ js ''summary'']"
  by (simp add: run_def compact_race_def configured_def init_def tg_first_def
        demo_env_def eval_defs demo_facts is_completion_def handler_defs)

text \<open>
  Claim C3 as stated does not hold for every schedule: on \<open>compact_race\<close> a message of
  the group is saved between the handler's \<open>clearGroupMessages\<close> and its
  \<open>saveMessage\<close>, and afterwards the store holds two messages for the group, both of
  which the next conversation window contains.
\<close>

theorem compaction_not_alone:
  "map content (filter (\<lambda>m. groupId m = js ''tg:42'') (db (run demo_env compact_race configured))) =
     [js ''@Andy first'', compacted_heading @ js ''summary''] \<and>
   length (buildConversationMessages demo_env (js ''tg:42'') CONTEXT_WINDOW_SIZE
             (db (run demo_env compact_race configured))) = 2"
proof -
  have "length (filter (\<lambda>m. groupId m = js ''tg:42'') (db (run demo_env compact_race configured))) = 2"
    using arg_cong[OF compact_race_eval, of length] by simp
  then show ?thesis
    using compact_race_eval
    by (simp add: buildConversationMessages_def getRecentMessages_def CONTEXT_WINDOW_SIZE_def Let_def)
qed

text \<open>
  Claim C3, amended. When the handler of \<open>compact-done\<close> runs without interleaving and
  the two promises it awaits are fulfilled, it replaces whatever the store held for the
  group by one new message whose content is the heading followed by the summary; the
  messages of other groups stay; the conversation window built for the group afterwards
  is that one message; and the coordinator is idle.
\<close>

theorem compaction_replaces_history:
  "filter (\<lambda>m. groupId m = g)
     (db (run e [WorkerMessage (CompactDone g summary), Resume (length (suspended s)) (Fulfil v),
                 Resume (length (suspended s)) (Fulfil v')] s)) =
     [summary_message e g summary s] \<and>
   content (summary_message e g summary s) = compacted_heading @ summary \<and>
   filter (\<lambda>m. groupId m \<noteq> g)
     (db (run e [WorkerMessage (CompactDone g summary), Resume (length (suspended s)) (Fulfil v),
                 Resume (length (suspended s)) (Fulfil v')] s)) =
     filter (\<lambda>m. groupId m \<noteq> g) (db s) \<and>
   buildConversationMessages e g CONTEXT_WINDOW_SIZE
     (db (run e [WorkerMessage (CompactDone g summary), Resume (length (suspended s)) (Fulfil v),
                 Resume (length (suspended s)) (Fulfil v')] s)) =
     [to_conversation e (summary_message e g summary s)] \<and>
   state (run e [WorkerMessage (CompactDone g summary), Resume (length (suspended s)) (Fulfil v),
                 Resume (length (suspended s)) (Fulfil v')] s) = Idle \<and>
   suspended (run e [WorkerMessage (CompactDone g summary), Resume (length (suspended s)) (Fulfil v),
                 Resume (length (suspended s)) (Fulfil v')] s) = suspended s"
proof -
  let ?r = "run e [WorkerMessage (CompactDone g summary), Resume (length (suspended s)) (Fulfil v),
                 Resume (length (suspended s)) (Fulfil v')] s"
  have r: "?r = handleCompactDone_saved g summary (summary_message e g summary s)
       ((clearGroupMessages g s)\<lparr>ticks := Suc (Suc (ticks s))\<rparr>)"
    by (rule compact_fulfilled) simp
  have d: "db ?r = filter (\<lambda>m. groupId m \<noteq> g) (db s) @ [summary_message e g summary s]"
    unfolding r by (simp add: handleCompactDone_saved_def coord_defs Let_def)
  have g: "groupId (summary_message e g summary s) = g"
    by (simp add: summary_message_def)
  have w: "buildConversationMessages e g CONTEXT_WINDOW_SIZE
       (filter (\<lambda>m. groupId m \<noteq> g) (db s) @ [summary_message e g summary s]) =
     [to_conversation e (summary_message e g summary s)]"
    using window_single[of e g "db s" "summary_message e g summary s"] g
    by (simp add: summary_message_def)
  have st: "state ?r = Idle" "suspended ?r = suspended s"
    unfolding r by (simp_all add: handleCompactDone_saved_def coord_defs Let_def)
  show ?thesis
    unfolding d using w st g by (simp add: summary_message_def)
qed

section \<open>Properties of the worker\<close>

subsection \<open>Rounds and loops\<close>
lemma completions_append [simp]: "completions (xs @ ys) = completions xs @ completions ys"
  by (simp add: completions_def)

lemma completions_Nil [simp]: "completions [] = []"
  by (simp add: completions_def)

lemma quiet_refl [simp]: "quiet ws ws"
  by (simp add: quiet_def)

lemma quiet_trans: "quiet a b \<Longrightarrow> quiet b c \<Longrightarrow> quiet a c"
  by (auto simp: quiet_def)

lemma quiet_post: "\<not> is_completion m \<Longrightarrow> quiet ws (post m ws)"
  by (simp add: quiet_def post_def completions_def)

lemma quiet_call: "quiet ws (snd (call f ws))"
  by (simp add: quiet_def call_def split: prod.splits)

lemma quiet_log [simp]: "quiet ws (log env g k lbl det ws)"
  by (auto simp: quiet_def log_def call_def post_def completions_def is_completion_def split: prod.splits)

lemma quiet_call_case:
  "(\<And>r ws'. quiet ws ws' \<Longrightarrow> quiet ws (snd (k r ws'))) \<Longrightarrow>
   quiet ws (snd (case call f ws of (r, ws') \<Rightarrow> k r ws'))"
  using quiet_call[of ws f] by (cases "call f ws") simp

lemma quiet_bash: "quiet ws (snd (tool_bash env inp g ws))"
proof (cases "math_min env (val_or (raw_field inp (js ''timeout'')) (JNum (num_lit 30)))
                (num_lit 120)")
  case (Inl x)
  then show ?thesis by (simp add: tool_bash_def)
next
  case (Inr timeout)
  show ?thesis unfolding tool_bash_def Inr Let_def sum.case
    by (rule quiet_call_case) (simp split: sum.splits)
qed

lemma quiet_read_file: "quiet ws (snd (tool_read_file env inp g ws))"
  unfolding tool_read_file_def by (rule quiet_call)

lemma quiet_write_file: "quiet ws (snd (tool_write_file env inp g ws))"
  unfolding tool_write_file_def
  by (rule quiet_call_case) (simp split: sum.splits)

lemma quiet_list_files: "quiet ws (snd (tool_list_files env inp g ws))"
  unfolding tool_list_files_def
  by (rule quiet_call_case) (simp split: sum.splits)

lemma quiet_fetch_url: "quiet ws (snd (tool_fetch_url env inp g ws))"
  unfolding tool_fetch_url_def Let_def
  by (rule quiet_call_case) (simp split: sum.splits)

lemma quiet_update_memory: "quiet ws (snd (tool_update_memory env inp g ws))"
  unfolding tool_update_memory_def
  by (rule quiet_call_case) (simp split: sum.splits)

lemma quiet_create_task: "quiet ws (snd (tool_create_task env arg g ws))"
proof -
  obtain i ws1 where c1: "call (w_ulid env) ws = (i, ws1)" by (cases "call (w_ulid env) ws")
  obtain t ws2 where c2: "call (w_now env) ws1 = (t, ws2)" by (cases "call (w_now env) ws1")
  have q1: "quiet ws ws1" using quiet_call[of ws "w_ulid env"] c1 by simp
  have q2: "quiet ws1 ws2" using quiet_call[of ws1 "w_now env"] c2 by simp
  have q3: "quiet ws2 (post (TaskCreated tk) ws2)" for tk
    by (rule quiet_post) (simp add: is_completion_def)
  show ?thesis
    using q1 quiet_trans[OF quiet_trans[OF q1 q2] q3]
    by (simp add: tool_create_task_def c1 c2 Let_def split: option.splits sum.splits)
qed

lemma quiet_javascript: "quiet ws (snd (tool_javascript env arg g ws))"
proof (cases "fields_of arg")
  case None
  then show ?thesis by (simp add: tool_javascript_def)
next
  case (Some inp)
  show ?thesis
  proof (cases "string_of env (raw_field inp (js ''code''))")
    case (Inl x)
    then show ?thesis using Some by (simp add: tool_javascript_def)
  next
    case (Inr code)
    show ?thesis unfolding tool_javascript_def Some Inr option.case sum.case
      by (rule quiet_call_case) (simp split: sum.splits jval.splits)
  qed
qed

lemma quiet_reading:
  "(\<And>inp. quiet ws (snd (f inp ws))) \<Longrightarrow> quiet ws (snd (reading env arg k f ws))"
  by (simp add: reading_def split: option.splits)

lemma quiet_run_tool: "quiet ws (snd (run_tool env name arg g ws))"
  by (simp add: run_tool_def quiet_reading quiet_bash quiet_read_file quiet_write_file
      quiet_list_files quiet_fetch_url quiet_update_memory quiet_create_task quiet_javascript)

lemma quiet_executeTool: "quiet ws (snd (executeTool env name arg g ws))"
  using quiet_run_tool[of ws env name arg g]
  by (auto simp: executeTool_def split: prod.splits sum.splits)

lemma quiet_log_text_blocks: "quiet ws (log_text_blocks env g bs ws)"
proof (induction env g bs ws rule: log_text_blocks.induct)
  case (2 env g tx bs ws)
  have "quiet ws (if tx \<noteq> [] then log env g TextLog (js ''Response text'') (preview 200 tx) ws else ws)"
    by simp
  then show ?case using 2 quiet_trans by fastforce
qed simp_all

lemma quiet_execute_tool_blocks: "quiet ws (snd (execute_tool_blocks env g bs ws))"
proof (induction env g bs ws rule: execute_tool_blocks.induct)
  case (2 env g i name inp bs ws)
  define ws1 where "ws1 = post (ToolActivity g name (js ''running''))
      (log env g ToolCall (js ''Tool: '' @ name) (preview 300 (json_of_input env inp)) ws)"
  obtain out ws2 where ex: "executeTool env name (ArgObject inp) g ws1 = (out, ws2)"
    by (cases "executeTool env name (ArgObject inp) g ws1")
  define ws3 where "ws3 = post (ToolActivity g name (js ''done''))
      (log env g ToolResultLog (js ''Result: '' @ name) (preview 500 out) ws2)"
  have q1: "quiet ws ws1"
    unfolding ws1_def by (rule quiet_trans[OF quiet_log quiet_post]) (simp add: is_completion_def)
  have q2: "quiet ws1 ws2" using quiet_executeTool[of ws1 env name "ArgObject inp" g] ex by simp
  have q3: "quiet ws2 ws3"
    unfolding ws3_def by (rule quiet_trans[OF quiet_log quiet_post]) (simp add: is_completion_def)
  have q4: "quiet ws3 (snd (execute_tool_blocks env g bs ws3))"
    using 2[OF refl refl refl, of out ws2] ex unfolding ws1_def ws3_def by (simp add: Let_def)
  have "snd (execute_tool_blocks env g (ToolUse i name inp # bs) ws) = snd (execute_tool_blocks env g bs ws3)"
    using ex unfolding ws1_def ws3_def by (simp add: Let_def split: prod.splits)
  then show ?case using q1 q2 q3 q4 quiet_trans by metis
qed simp_all

lemma quiet_execute_tool_calls: "quiet ws (snd (execute_tool_calls env g tcs ws))"
proof (induction env g tcs ws rule: execute_tool_calls.induct)
  case (2 env g tc tcs ws)
  define inputStr where "inputStr = str_or (fn_arguments tc) (js ''{}'')"
  define inputCode where "inputCode = (case json_parse env inputStr of Some v \<Rightarrow> v | None \<Rightarrow> ArgObject [])"
  define ws1 where "ws1 = post (ToolActivity g (fn_name tc) (js ''running''))
      (log env g ToolCall (js ''Tool: '' @ fn_name tc) inputStr ws)"
  obtain out ws2 where ex: "executeTool env (fn_name tc) inputCode g ws1 = (out, ws2)"
    by (cases "executeTool env (fn_name tc) inputCode g ws1")
  define ws3 where "ws3 = post (ToolActivity g (fn_name tc) (js ''done''))
      (log env g ToolResultLog (js ''Result: '' @ fn_name tc) (preview 500 out) ws2)"
  have q1: "quiet ws ws1"
    unfolding ws1_def by (rule quiet_trans[OF quiet_log quiet_post]) (simp add: is_completion_def)
  have q2: "quiet ws1 ws2" using quiet_executeTool[of ws1 env "fn_name tc" inputCode g] ex by simp
  have q3: "quiet ws2 ws3"
    unfolding ws3_def by (rule quiet_trans[OF quiet_log quiet_post]) (simp add: is_completion_def)
  have q4: "quiet ws3 (snd (execute_tool_calls env g tcs ws3))"
    using 2[OF refl refl refl refl, of out ws2] ex
    unfolding ws1_def ws3_def inputStr_def inputCode_def by (simp add: Let_def)
  have "snd (execute_tool_calls env g (tc # tcs) ws) = snd (execute_tool_calls env g tcs ws3)"
    using ex unfolding ws1_def ws3_def inputStr_def inputCode_def
    by (simp add: Let_def split: prod.splits)
  then show ?case using q1 q2 q3 q4 quiet_trans by metis
qed simp

text \<open>What one round does, by the backend's reply.\<close>

lemma quiet_usage_a:
  "quiet ws (case u of Some v \<Rightarrow> post (TokenUsage (f v)) ws | None \<Rightarrow> ws)"
  by (cases u) (simp_all add: quiet_post is_completion_def)

lemma anthropic_ok_tool:
  assumes "stop_reason result = js ''tool_use''"
  shows "\<exists>msgs ws'. anthropic_ok env p cm result ws = Next msgs ws' \<and> quiet ws ws'"
proof -
  define ws1 where "ws1 = log_text_blocks env (p_groupId p) (a_content result)
     (case a_usage result of
        Some u \<Rightarrow> post (TokenUsage (usage_anthropic (p_groupId p) (p_model p) u)) ws
      | None \<Rightarrow> ws)"
  obtain res ws2 where ex: "execute_tool_blocks env (p_groupId p) (a_content result) ws1 = (res, ws2)"
    by (cases "execute_tool_blocks env (p_groupId p) (a_content result) ws1")
  have q1: "quiet ws ws1"
    unfolding ws1_def by (rule quiet_trans[OF quiet_usage_a quiet_log_text_blocks])
  have q2: "quiet ws1 ws2"
    using quiet_execute_tool_blocks[of ws1 env "p_groupId p" "a_content result"] ex by simp
  have q3: "quiet ws2 (post (Typing (p_groupId p)) ws2)"
    by (rule quiet_post) (simp add: is_completion_def)
  have "anthropic_ok env p cm result ws =
      Next (cm @ [\<lparr> role = Assistant, cm_content = Blocks (a_content result) \<rparr>,
                 \<lparr> role = User, cm_content = Blocks res \<rparr>]) (post (Typing (p_groupId p)) ws2)"
    using assms ex unfolding ws1_def by (simp add: anthropic_ok_def Let_def)
  then show ?thesis using q1 q2 q3 quiet_trans by metis
qed

lemma anthropic_ok_final:
  assumes "stop_reason result \<noteq> js ''tool_use''"
  shows "\<exists>ws'. anthropic_ok env p cm result ws =
            Stop None (post (Response (p_groupId p)
              (final_text (concat (map block_text (a_content result))))) ws') \<and> quiet ws ws'"
proof -
  define ws1 where "ws1 = log_text_blocks env (p_groupId p) (a_content result)
     (case a_usage result of
        Some u \<Rightarrow> post (TokenUsage (usage_anthropic (p_groupId p) (p_model p) u)) ws
      | None \<Rightarrow> ws)"
  have q1: "quiet ws ws1"
    unfolding ws1_def by (rule quiet_trans[OF quiet_usage_a quiet_log_text_blocks])
  have "anthropic_ok env p cm result ws =
      Stop None (post (Response (p_groupId p)
              (final_text (concat (map block_text (a_content result))))) ws1)"
    using assms unfolding ws1_def by (simp add: anthropic_ok_def Let_def)
  then show ?thesis using q1 by blast
qed

text \<open>The state in which a round calls the backend, and the state right after the call.\<close>

lemma a_before_quiet: "quiet (ws\<lparr>fetches := Suc (fetches ws)\<rparr>) (a_before env p n cm ws)"
  using quiet_log[of ws env "p_groupId p" ApiCall "js ''API call #'' @ show_nat n"
      "show_nat (length cm) @ js '' messages in context''"]
  by (simp add: a_before_def quiet_def log_def call_def post_def split: prod.splits)

lemma anthropic_round_reply:
  assumes "anthropic_fetch env (world (a_before env p n cm ws)) (a_body p cm) = (reply, w')"
  shows "anthropic_round env p n cm ws =
     (case reply of
        FetchThrew x \<Rightarrow> Stop (Some x) ((a_before env p n cm ws)\<lparr>world := w'\<rparr>)
      | HttpNotOk status errBody \<Rightarrow>
          Stop (Some (JsError (js ''Anthropic API error '' @ show_nat status @ js '': '' @ errBody)))
            ((a_before env p n cm ws)\<lparr>world := w'\<rparr>)
      | HttpOk result \<Rightarrow> anthropic_ok env p cm result ((a_before env p n cm ws)\<lparr>world := w'\<rparr>))"
proof -
  have "fetches (log env (p_groupId p) ApiCall (js ''API call #'' @ show_nat n)
        (show_nat (length cm) @ js '' messages in context'') ws) = fetches ws"
    using quiet_log[of ws env "p_groupId p" ApiCall] by (simp add: quiet_def)
  then show ?thesis
    using assms
    by (simp add: anthropic_round_def a_before_def a_body_def Let_def call_def split: reply.splits)
qed

lemma quiet_world: "quiet ws (ws\<lparr>world := w\<rparr>)"
  by (simp add: quiet_def)

lemma advance_quiet: "advance 0 ws ws' = quiet ws ws'"
  by (simp add: advance_def quiet_def)

lemma advance_trans: "advance j a b \<Longrightarrow> advance k b c \<Longrightarrow> advance (j + k) a c"
  by (auto simp: advance_def)

lemma advance_quiet_right: "advance k a b \<Longrightarrow> quiet b c \<Longrightarrow> advance k a c"
  using advance_trans[of k a b 0 c] by (simp add: advance_quiet)

lemma a_before_advance: "advance 1 ws ((a_before env p n cm ws)\<lparr>world := w\<rparr>)"
  using a_before_quiet[of ws env p n cm] by (auto simp: advance_def quiet_def)

lemma no_response_nonempty: "no_response \<noteq> []"
  by (simp add: no_response_def js_def)

lemma final_text_nonempty: "final_text t \<noteq> []"
  by (simp add: final_text_def Let_def no_response_nonempty)

text \<open>The three ways a round can end, for any backend and any tools.\<close>

lemma anthropic_round_outcome:
  "(case anthropic_round env p n cm ws of
      Next msgs ws' \<Rightarrow> advance 1 ws ws'
    | Stop None ws' \<Rightarrow>
        (\<exists>t ws''. advance 1 ws ws'' \<and> ws' = post (Response (p_groupId p) t) ws'' \<and> t \<noteq> [])
    | Stop (Some x) ws' \<Rightarrow> advance 1 ws ws')"
proof -
  obtain reply w' where f:
    "anthropic_fetch env (world (a_before env p n cm ws)) (a_body p cm) = (reply, w')"
    by (cases "anthropic_fetch env (world (a_before env p n cm ws)) (a_body p cm)")
  let ?ws = "(a_before env p n cm ws)\<lparr>world := w'\<rparr>"
  have adv: "advance 1 ws ?ws" by (rule a_before_advance)
  show ?thesis
  proof (cases reply)
    case (FetchThrew x)
    then show ?thesis using anthropic_round_reply[OF f] adv by simp
  next
    case (HttpNotOk status errBody)
    then show ?thesis using anthropic_round_reply[OF f] adv by simp
  next
    case (HttpOk result)
    then have r: "anthropic_round env p n cm ws = anthropic_ok env p cm result ?ws"
      using anthropic_round_reply[OF f] by simp
    show ?thesis
    proof (cases "stop_reason result = js ''tool_use''")
      case True
      then obtain msgs ws' where "anthropic_ok env p cm result ?ws = Next msgs ws'" "quiet ?ws ws'"
        using anthropic_ok_tool by blast
      then show ?thesis using r adv advance_quiet_right by fastforce
    next
      case False
      then obtain ws' where "anthropic_ok env p cm result ?ws =
            Stop None (post (Response (p_groupId p)
              (final_text (concat (map block_text (a_content result))))) ws')" "quiet ?ws ws'"
        using anthropic_ok_final by blast
      then show ?thesis using r adv advance_quiet_right final_text_nonempty by fastforce
    qed
  qed
qed

lemma max_text_nonempty: "max_iterations_anthropic \<noteq> []" "max_iterations_ollama \<noteq> []"
  by (simp_all add: max_iterations_anthropic_def max_iterations_ollama_def)

lemma loop_outcome_step:
  assumes "n < maxIterations" "advance 1 ws ws1" "loop_outcome g (Suc n) ws1 r"
  shows "loop_outcome g n ws r"
proof (cases r)
  case (Pair e ws')
  show ?thesis
  proof (cases e)
    case None
    then obtain k t ws'' where k: "k \<le> maxIterations - Suc n" "advance k ws1 ws''"
        "ws' = post (Response g t) ws''" "t \<noteq> []"
      using assms(3) Pair by (auto simp: loop_outcome_def)
    have "advance (1 + k) ws ws''" using advance_trans[OF assms(2) k(2)] .
    moreover have "1 + k \<le> maxIterations - n" using k(1) assms(1) by simp
    ultimately show ?thesis using Pair None k(3,4) by (auto simp: loop_outcome_def)
  next
    case (Some x)
    then obtain k where k: "k \<le> maxIterations - Suc n" "advance k ws1 ws'"
      using assms(3) Pair by (auto simp: loop_outcome_def)
    have "advance (1 + k) ws ws'" using advance_trans[OF assms(2) k(2)] .
    moreover have "1 + k \<le> maxIterations - n" using k(1) assms(1) by simp
    ultimately show ?thesis using Pair Some by (auto simp: loop_outcome_def)
  qed
qed

lemma anthropic_loop_outcome:
  "loop_outcome (p_groupId p) n ws (anthropic_loop env p n cm ws)"
proof (induction env p n cm ws rule: anthropic_loop.induct)
  case (1 env p n cm ws)
  show ?case
  proof (cases "n < maxIterations")
    case False
    have "advance 0 ws ws" by (simp add: advance_def)
    then show ?thesis using False max_text_nonempty(1)
      by (subst anthropic_loop.simps) (auto simp: loop_outcome_def)
  next
    case True
    note out = anthropic_round_outcome[where env=env and p=p and n="n + 1" and cm=cm and ws=ws]
    show ?thesis
    proof (cases "anthropic_round env p (n + 1) cm ws")
      case (Next msgs ws1)
      then have adv: "advance 1 ws ws1" using out by simp
      have "loop_outcome (p_groupId p) (Suc n) ws1 (anthropic_loop env p (n + 1) msgs ws1)"
        using 1[OF True Next] by simp
      then have "loop_outcome (p_groupId p) n ws (anthropic_loop env p (n + 1) msgs ws1)"
        using loop_outcome_step[OF True adv] by simp
      then show ?thesis using True Next by (subst anthropic_loop.simps) simp
    next
      case (Stop r ws1)
      have eq: "anthropic_loop env p n cm ws = (r, ws1)"
        using True Stop by (subst anthropic_loop.simps) simp
      show ?thesis
      proof (cases r)
        case None
        then obtain t ws'' where "advance 1 ws ws''" "ws1 = post (Response (p_groupId p) t) ws''" "t \<noteq> []"
          using out Stop by auto
        moreover have "1 \<le> maxIterations - n" using True by simp
        ultimately have "\<exists>k t ws''. k \<le> maxIterations - n \<and> advance k ws ws'' \<and>
                      ws1 = post (Response (p_groupId p) t) ws'' \<and> t \<noteq> []"
          by blast
        then show ?thesis using eq None by (simp add: loop_outcome_def)
      next
        case (Some x)
        then have "advance 1 ws ws1" using out Stop by simp
        moreover have "1 \<le> maxIterations - n" using True by simp
        ultimately have "\<exists>k. k \<le> maxIterations - n \<and> advance k ws ws1" by blast
        then show ?thesis using eq Some by (simp add: loop_outcome_def)
      qed
    qed
  qed
qed

lemma a_start_quiet: "quiet ws (a_start env p ws)"
  unfolding a_start_def
  by (rule quiet_trans[OF quiet_post quiet_log]) (simp add: is_completion_def)

lemma invokeAnthropic_unfold:
  "invokeAnthropic env p ws =
     (case anthropic_loop env p 0 (p_messages p) (a_start env p ws) of
        (None, ws') \<Rightarrow> ws'
      | (Some x, ws') \<Rightarrow> post (Error (p_groupId p) (exn_message x)) ws')"
  by (simp add: invokeAnthropic_def a_start_def Let_def)

lemma ends_with_post:
  "quiet ws ws1 \<Longrightarrow> advance k ws1 ws2 \<Longrightarrow> ends_with c ws (post c ws2)"
  by (auto simp: ends_with_def quiet_def advance_def post_def)

lemma ends_with_fresh:
  "ends_with c (fresh w) ws' \<Longrightarrow> is_completion c \<Longrightarrow>
   completions (outbox ws') = [c] \<and> last (outbox ws') = c"
  by (auto simp: ends_with_def fresh_def completions_def)

lemma fetches_post: "fetches (post m ws) = fetches ws"
  by (simp add: post_def)

text \<open>Every invocation ends with exactly one completion envelope, after at most 25 round trips.\<close>

lemma invokeAnthropic_completes:
  "\<exists>c. is_completion c \<and> ends_with c ws (invokeAnthropic env p ws) \<and>
       fetches (invokeAnthropic env p ws) \<le> fetches ws + maxIterations"
proof -
  let ?ws1 = "a_start env p ws"
  have q: "quiet ws ?ws1" by (rule a_start_quiet)
  then have f1: "fetches ?ws1 = fetches ws" by (simp add: quiet_def)
  obtain r ws' where l: "anthropic_loop env p 0 (p_messages p) ?ws1 = (r, ws')"
    by (cases "anthropic_loop env p 0 (p_messages p) ?ws1")
  have out: "loop_outcome (p_groupId p) 0 ?ws1 (r, ws')"
    using anthropic_loop_outcome[of p 0 ?ws1 env "p_messages p"] l by simp
  show ?thesis
  proof (cases r)
    case None
    then obtain k t ws'' where k: "k \<le> maxIterations" "advance k ?ws1 ws''"
        "ws' = post (Response (p_groupId p) t) ws''"
      using out by (auto simp: loop_outcome_def)
    have "invokeAnthropic env p ws = post (Response (p_groupId p) t) ws''"
      using l None k(3) by (simp add: invokeAnthropic_unfold)
    moreover have "ends_with (Response (p_groupId p) t) ws (post (Response (p_groupId p) t) ws'')"
      using ends_with_post[OF q k(2)] .
    moreover have "fetches ws'' \<le> fetches ws + maxIterations"
      using k(1,2) f1 by (simp add: advance_def)
    ultimately show ?thesis
      by (intro exI[of _ "Response (p_groupId p) t"]) (simp add: is_completion_def fetches_post)
  next
    case (Some x)
    then obtain k where k: "k \<le> maxIterations" "advance k ?ws1 ws'"
      using out by (auto simp: loop_outcome_def)
    have "invokeAnthropic env p ws = post (Error (p_groupId p) (exn_message x)) ws'"
      using l Some by (simp add: invokeAnthropic_unfold)
    moreover have "ends_with (Error (p_groupId p) (exn_message x)) ws
        (post (Error (p_groupId p) (exn_message x)) ws')"
      using ends_with_post[OF q k(2)] .
    moreover have "fetches ws' \<le> fetches ws + maxIterations"
      using k(1,2) f1 by (simp add: advance_def)
    ultimately show ?thesis
      by (intro exI[of _ "Error (p_groupId p) (exn_message x)"]) (simp add: is_completion_def fetches_post)
  qed
qed





lemma o_before_advance: "advance 1 ws ((o_before env p n cm ws)\<lparr>world := w\<rparr>)"
  using quiet_log[of ws env "p_groupId p" ApiCall "js ''Ollama API call #'' @ show_nat n"
      "show_nat (length cm) @ js '' messages in context''"]
  by (auto simp: o_before_def advance_def quiet_def)

lemma ollama_round_reply:
  assumes "ollama_fetch env (world (o_before env p n cm ws)) (o_body p cm) = (reply, w')"
  shows "ollama_round env p n cm ws =
     (case reply of
        FetchThrew x \<Rightarrow> Stop (Some x) ((o_before env p n cm ws)\<lparr>world := w'\<rparr>)
      | HttpNotOk status errBody \<Rightarrow>
          Stop (Some (JsError (js ''Ollama API error '' @ show_nat status @ js '': '' @ errBody)))
            ((o_before env p n cm ws)\<lparr>world := w'\<rparr>)
      | HttpOk result \<Rightarrow> ollama_ok env p cm result ((o_before env p n cm ws)\<lparr>world := w'\<rparr>))"
proof -
  have "fetches (log env (p_groupId p) ApiCall (js ''Ollama API call #'' @ show_nat n)
        (show_nat (length cm) @ js '' messages in context'') ws) = fetches ws"
    using quiet_log[of ws env "p_groupId p" ApiCall] by (simp add: quiet_def)
  then show ?thesis
    using assms
    by (simp add: ollama_round_def o_before_def o_body_def Let_def call_def split: reply.splits)
qed

lemma o_logged_quiet: "quiet ws (o_logged env p result choice ws)"
proof -
  have a: "quiet ws (case o_usage result of
                  Some u \<Rightarrow> post (TokenUsage (usage_ollama (p_groupId p) u)) ws
                | None \<Rightarrow> ws)" (is "quiet ws ?w1")
    by (rule quiet_usage_a)
  have b: "quiet ?w1 (case o_content (message choice) of
           Some c \<Rightarrow> (if c \<noteq> []
                      then log env (p_groupId p) TextLog (js ''Response text'') (preview 200 c) ?w1
                      else ?w1)
         | None \<Rightarrow> ?w1)"
    by (simp split: option.splits)
  show ?thesis unfolding o_logged_def Let_def by (rule quiet_trans[OF a b])
qed

lemma ollama_ok_empty:
  "choices result = [] \<Longrightarrow> ollama_ok env p cm result ws = Stop (Some (JsError (type_error env JUndef (js ''message'')))) ws"
  by (simp add: ollama_ok_def)

lemma ollama_ok_tool:
  assumes "choices result = choice # others" "finish_reason choice = js ''tool_calls''"
    "tool_calls (message choice) = Some tcs"
  shows "\<exists>msgs ws'. ollama_ok env p cm result ws = Next msgs ws' \<and> quiet ws ws'"
proof -
  let ?ws1 = "o_logged env p result choice ws"
  obtain pushed ws2 where ex: "execute_tool_calls env (p_groupId p) tcs ?ws1 = (pushed, ws2)"
    by (cases "execute_tool_calls env (p_groupId p) tcs ?ws1")
  have q2: "quiet ?ws1 ws2"
    using quiet_execute_tool_calls[of ?ws1 env "p_groupId p" tcs] ex by simp
  have q3: "quiet ws2 (post (Typing (p_groupId p)) ws2)"
    by (rule quiet_post) (simp add: is_completion_def)
  have "ollama_ok env p cm result ws =
      Next (cm @ [message choice] @ pushed) (post (Typing (p_groupId p)) ws2)"
    using assms ex by (simp add: ollama_ok_def o_logged_def Let_def)
  then show ?thesis using o_logged_quiet q2 q3 quiet_trans by metis
qed

lemma ollama_ok_final:
  assumes "choices result = choice # others"
    "(if finish_reason choice = js ''tool_calls'' then tool_calls (message choice) else None) = None"
  shows "ollama_ok env p cm result ws =
            Stop None (post (Response (p_groupId p)
              (final_text (str_or (o_content (message choice)) no_response)))
              (o_logged env p result choice ws))"
  using assms by (simp add: ollama_ok_def o_logged_def Let_def)

lemma ollama_round_outcome:
  "(case ollama_round env p n cm ws of
      Next msgs ws' \<Rightarrow> advance 1 ws ws'
    | Stop None ws' \<Rightarrow>
        (\<exists>t ws''. advance 1 ws ws'' \<and> ws' = post (Response (p_groupId p) t) ws'' \<and> t \<noteq> [])
    | Stop (Some x) ws' \<Rightarrow> advance 1 ws ws')"
proof -
  obtain reply w' where f:
    "ollama_fetch env (world (o_before env p n cm ws)) (o_body p cm) = (reply, w')"
    by (cases "ollama_fetch env (world (o_before env p n cm ws)) (o_body p cm)")
  let ?ws = "(o_before env p n cm ws)\<lparr>world := w'\<rparr>"
  have adv: "advance 1 ws ?ws" by (rule o_before_advance)
  show ?thesis
  proof (cases reply)
    case (FetchThrew x)
    then show ?thesis using ollama_round_reply[OF f] adv by simp
  next
    case (HttpNotOk status errBody)
    then show ?thesis using ollama_round_reply[OF f] adv by simp
  next
    case (HttpOk result)
    then have r: "ollama_round env p n cm ws = ollama_ok env p cm result ?ws"
      using ollama_round_reply[OF f] by simp
    show ?thesis
    proof (cases "choices result")
      case Nil
      then show ?thesis using r adv by (simp add: ollama_ok_empty)
    next
      case (Cons choice others)
      show ?thesis
      proof (cases "(if finish_reason choice = js ''tool_calls'' then tool_calls (message choice) else None)")
        case None
        have a: "advance 1 ws (o_logged env p result choice ?ws)"
          using advance_quiet_right[OF adv o_logged_quiet] .
        have "ollama_round env p n cm ws =
            Stop None (post (Response (p_groupId p)
              (final_text (str_or (o_content (message choice)) no_response)))
              (o_logged env p result choice ?ws))"
          using r ollama_ok_final[OF Cons None] by simp
        then show ?thesis
          using a final_text_nonempty by auto
      next
        case (Some tcs)
        then have "finish_reason choice = js ''tool_calls''" "tool_calls (message choice) = Some tcs"
          by (auto split: if_splits)
        then obtain msgs ws' where "ollama_ok env p cm result ?ws = Next msgs ws'" "quiet ?ws ws'"
          using ollama_ok_tool[OF Cons] by blast
        then show ?thesis using r adv advance_quiet_right by fastforce
      qed
    qed
  qed
qed

lemma ollama_loop_outcome:
  "loop_outcome (p_groupId p) n ws (ollama_loop env p n cm ws)"
proof (induction env p n cm ws rule: ollama_loop.induct)
  case (1 env p n cm ws)
  show ?case
  proof (cases "n < maxIterations")
    case False
    have "advance 0 ws ws" by (simp add: advance_def)
    then show ?thesis using False max_text_nonempty(2)
      by (subst ollama_loop.simps) (auto simp: loop_outcome_def)
  next
    case True
    note out = ollama_round_outcome[where env=env and p=p and n="n + 1" and cm=cm and ws=ws]
    show ?thesis
    proof (cases "ollama_round env p (n + 1) cm ws")
      case (Next msgs ws1)
      then have adv: "advance 1 ws ws1" using out by simp
      have "loop_outcome (p_groupId p) (Suc n) ws1 (ollama_loop env p (n + 1) msgs ws1)"
        using 1[OF True Next] by simp
      then have "loop_outcome (p_groupId p) n ws (ollama_loop env p (n + 1) msgs ws1)"
        using loop_outcome_step[OF True adv] by simp
      then show ?thesis using True Next by (subst ollama_loop.simps) simp
    next
      case (Stop r ws1)
      have eq: "ollama_loop env p n cm ws = (r, ws1)"
        using True Stop by (subst ollama_loop.simps) simp
      show ?thesis
      proof (cases r)
        case None
        then obtain t ws'' where "advance 1 ws ws''" "ws1 = post (Response (p_groupId p) t) ws''" "t \<noteq> []"
          using out Stop by auto
        moreover have "1 \<le> maxIterations - n" using True by simp
        ultimately have "\<exists>k t ws''. k \<le> maxIterations - n \<and> advance k ws ws'' \<and>
                      ws1 = post (Response (p_groupId p) t) ws'' \<and> t \<noteq> []"
          by blast
        then show ?thesis using eq None by (simp add: loop_outcome_def)
      next
        case (Some x)
        then have "advance 1 ws ws1" using out Stop by simp
        moreover have "1 \<le> maxIterations - n" using True by simp
        ultimately have "\<exists>k. k \<le> maxIterations - n \<and> advance k ws ws1" by blast
        then show ?thesis using eq Some by (simp add: loop_outcome_def)
      qed
    qed
  qed
qed

lemma o_start_quiet: "quiet ws (o_start env p ws)"
  unfolding o_start_def
  by (rule quiet_trans[OF quiet_post quiet_log]) (simp add: is_completion_def)

lemma invokeOllama_unfold:
  "invokeOllama env p ws =
     (case ollama_loop env p 0 (ollama_seed env p) (o_start env p ws) of
        (None, ws') \<Rightarrow> ws'
      | (Some x, ws') \<Rightarrow> post (Error (p_groupId p) (exn_message x)) ws')"
  by (simp add: invokeOllama_def o_start_def Let_def)



lemma invoke_finish:
  assumes q: "quiet ws ws1" and out: "loop_outcome g 0 ws1 (r, ws')"
  shows "\<exists>c. is_completion c \<and> c \<noteq> Response g [] \<and>
           ends_with c ws (case r of None \<Rightarrow> ws' | Some x \<Rightarrow> post (Error g (exn_message x)) ws') \<and>
           fetches (case r of None \<Rightarrow> ws' | Some x \<Rightarrow> post (Error g (exn_message x)) ws')
             \<le> fetches ws + maxIterations"
proof -
  have f1: "fetches ws1 = fetches ws" using q by (simp add: quiet_def)
  show ?thesis
  proof (cases r)
    case None
    then obtain k t ws'' where k: "k \<le> maxIterations" "advance k ws1 ws''"
        "ws' = post (Response g t) ws''" "t \<noteq> []"
      using out by (auto simp: loop_outcome_def)
    have "ends_with (Response g t) ws (post (Response g t) ws'')"
      using ends_with_post[OF q k(2)] .
    moreover have "fetches ws'' \<le> fetches ws + maxIterations"
      using k(1,2) f1 by (simp add: advance_def)
    ultimately show ?thesis using None k(3,4)
      by (intro exI[of _ "Response g t"]) (simp add: is_completion_def fetches_post)
  next
    case (Some x)
    then obtain k where k: "k \<le> maxIterations" "advance k ws1 ws'"
      using out by (auto simp: loop_outcome_def)
    have "ends_with (Error g (exn_message x)) ws (post (Error g (exn_message x)) ws')"
      using ends_with_post[OF q k(2)] .
    moreover have "fetches ws' \<le> fetches ws + maxIterations"
      using k(1,2) f1 by (simp add: advance_def)
    ultimately show ?thesis using Some
      by (intro exI[of _ "Error g (exn_message x)"]) (simp add: is_completion_def fetches_post)
  qed
qed

lemma invokeAnthropic_finishes:
  "\<exists>c. is_completion c \<and> c \<noteq> Response (p_groupId p) [] \<and>
       ends_with c ws (invokeAnthropic env p ws) \<and>
       fetches (invokeAnthropic env p ws) \<le> fetches ws + maxIterations"
proof -
  obtain r ws' where l: "anthropic_loop env p 0 (p_messages p) (a_start env p ws) = (r, ws')"
    by (cases "anthropic_loop env p 0 (p_messages p) (a_start env p ws)")
  have out: "loop_outcome (p_groupId p) 0 (a_start env p ws) (r, ws')"
    using anthropic_loop_outcome[where p=p and n=0 and ws="a_start env p ws" and env=env
        and cm="p_messages p"] l by simp
  show ?thesis
    using invoke_finish[OF a_start_quiet out] l by (simp add: invokeAnthropic_unfold)
qed

lemma invokeOllama_finishes:
  "\<exists>c. is_completion c \<and> c \<noteq> Response (p_groupId p) [] \<and>
       ends_with c ws (invokeOllama env p ws) \<and>
       fetches (invokeOllama env p ws) \<le> fetches ws + maxIterations"
proof -
  obtain r ws' where l: "ollama_loop env p 0 (ollama_seed env p) (o_start env p ws) = (r, ws')"
    by (cases "ollama_loop env p 0 (ollama_seed env p) (o_start env p ws)")
  have out: "loop_outcome (p_groupId p) 0 (o_start env p ws) (r, ws')"
    using ollama_loop_outcome[where p=p and n=0 and ws="o_start env p ws" and env=env
        and cm="ollama_seed env p"] l by simp
  show ?thesis
    using invoke_finish[OF o_start_quiet out] l by (simp add: invokeOllama_unfold)
qed






subsection \<open>Stripping internal sections\<close>


lemma no_response_codes: "no_response = [40, 110, 111, 32, 114, 101, 115, 112, 111, 110, 115, 101, 41]"
  by (simp add: no_response_def js_def)

lemma open_tag_codes: "open_tag = [60, 105, 110, 116, 101, 114, 110, 97, 108, 62]"
  by (simp add: open_tag_def js_def)

lemma strip_no_open: "60 \<notin> set t \<Longrightarrow> strip_internal t = t"
  by (induction t) (auto simp: startsWith_def open_tag_codes)

lemma strip_plain: "strip_internal no_response = no_response"
  by (rule strip_no_open) (simp add: no_response_codes)

lemma trim_plain: "trim no_response = no_response"
  by (simp add: no_response_codes trim_def is_space_def)


lemma close_tag_codes: "close_tag = [60, 47, 105, 110, 116, 101, 114, 110, 97, 108, 62]"
  by (simp add: close_tag_def js_def)

lemma strip_open:
  "after_close t = Some rest \<Longrightarrow> strip_internal (open_tag @ t) = strip_internal rest"
  by (simp add: open_tag_codes startsWith_def)

lemma after_close_here: "after_close (close_tag @ t) = Some t"
  by (simp add: close_tag_codes startsWith_def)

lemma after_close_skip: "c \<noteq> 60 \<Longrightarrow> after_close (c # t) = after_close t"
  by (simp add: close_tag_codes startsWith_def)

lemma hidden_split: "js ''<internal>plan</internal> '' = open_tag @ js ''plan'' @ close_tag @ [32]"
  by (simp add: js_def open_tag_codes close_tag_codes)

lemma hidden_strip: "strip_internal (js ''<internal>plan</internal> '') = [32]"
proof -
  have "after_close (js ''plan'' @ close_tag @ [32]) = Some [32]"
    by (simp add: js_def after_close_skip after_close_here del: after_close.simps)
  then have "strip_internal (open_tag @ js ''plan'' @ close_tag @ [32]) = strip_internal [32]"
    by (rule strip_open)
  also have "strip_internal [32] = [32]"
    by (rule strip_no_open) simp
  finally show ?thesis by (simp only: hidden_split)
qed

lemma hidden_trim: "trim (strip_internal (js ''<internal>plan</internal> '')) = []"
  by (simp add: hidden_strip trim_def is_space_def)


subsection \<open>The iteration bound and backend errors\<close>

lemma anthropic_loop_first:
  assumes "anthropic_round env p (Suc 0) cm ws = Stop r ws'"
  shows "anthropic_loop env p 0 cm ws = (r, ws')"
  using assms by (subst anthropic_loop.simps) (simp add: maxIterations_def)

lemma ollama_loop_first:
  assumes "ollama_round env p (Suc 0) cm ws = Stop r ws'"
  shows "ollama_loop env p 0 cm ws = (r, ws')"
  using assms by (subst ollama_loop.simps) (simp add: maxIterations_def)







subsection \<open>Tool errors and the placeholder text\<close>

text \<open>Exceptions of the tools.\<close>

lemma tool_names:
  "js ''read_file'' \<noteq> js ''bash''"
  "js ''javascript'' \<noteq> js ''bash''" "js ''javascript'' \<noteq> js ''read_file''"
  "js ''javascript'' \<noteq> js ''write_file''" "js ''javascript'' \<noteq> js ''list_files''"
  "js ''javascript'' \<noteq> js ''fetch_url''" "js ''javascript'' \<noteq> js ''update_memory''"
  "js ''javascript'' \<noteq> js ''create_task''"
  by (simp_all add: js_def)




lemma javascript_catches:
  "js_eval env (world ws) (use_strict @ code) = (Inl x, w') \<Longrightarrow>
   executeTool env (js ''javascript'') (ArgObject [(js ''code'', JStr code)]) g ws =
     (javascript_error x, ws\<lparr>world := w'\<rparr>)"
  by (simp add: executeTool_def run_tool_def tool_names tool_javascript_def fields_of_def
        raw_field_def string_of_def call_def)







text \<open>The text of a final reply.\<close>

lemma invokeAnthropic_final:
  assumes "\<forall>w req. \<exists>w'. anthropic_fetch env w req = (HttpOk r, w')"
    and "stop_reason r \<noteq> js ''tool_use''"
  shows "ends_with (Response (p_groupId p) (final_text (concat (map block_text (a_content r)))))
           ws (invokeAnthropic env p ws)"
proof -
  let ?ws1 = "a_start env p ws"
  obtain w' where f:
    "anthropic_fetch env (world (a_before env p (Suc 0) (p_messages p) ?ws1)) (a_body p (p_messages p)) = (HttpOk r, w')"
    using assms(1) by blast
  let ?ws2 = "(a_before env p (Suc 0) (p_messages p) ?ws1)\<lparr>world := w'\<rparr>"
  obtain ws3 where ok: "anthropic_ok env p (p_messages p) r ?ws2 =
      Stop None (post (Response (p_groupId p)
        (final_text (concat (map block_text (a_content r))))) ws3)" and q: "quiet ?ws2 ws3"
    using anthropic_ok_final[OF assms(2)] by blast
  have "anthropic_round env p (Suc 0) (p_messages p) ?ws1 =
      Stop None (post (Response (p_groupId p)
        (final_text (concat (map block_text (a_content r))))) ws3)"
    using anthropic_round_reply[OF f] ok by simp
  then have "anthropic_loop env p 0 (p_messages p) ?ws1 =
      (None, post (Response (p_groupId p)
        (final_text (concat (map block_text (a_content r))))) ws3)"
    by (rule anthropic_loop_first)
  then have inv: "invokeAnthropic env p ws =
      post (Response (p_groupId p) (final_text (concat (map block_text (a_content r))))) ws3"
    by (simp add: invokeAnthropic_unfold)
  have adv: "advance 1 ?ws1 ws3"
    using advance_quiet_right[OF a_before_advance q] .
  show ?thesis using ends_with_post[OF a_start_quiet adv] by (simp only: inv)
qed

lemma invokeOllama_final:
  assumes "\<forall>w req. \<exists>w'. ollama_fetch env w req = (HttpOk r, w')"
    and "choices r = c # cs"
    and "(if finish_reason c = js ''tool_calls'' then tool_calls (message c) else None) = None"
  shows "ends_with (Response (p_groupId p) (final_text (str_or (o_content (message c)) no_response)))
           ws (invokeOllama env p ws)"
proof -
  let ?ws1 = "o_start env p ws"
  let ?cm = "ollama_seed env p"
  obtain w' where f:
    "ollama_fetch env (world (o_before env p (Suc 0) ?cm ?ws1)) (o_body p ?cm) = (HttpOk r, w')"
    using assms(1) by blast
  let ?ws2 = "(o_before env p (Suc 0) ?cm ?ws1)\<lparr>world := w'\<rparr>"
  let ?ws3 = "o_logged env p r c ?ws2"
  have "ollama_round env p (Suc 0) ?cm ?ws1 =
      Stop None (post (Response (p_groupId p)
        (final_text (str_or (o_content (message c)) no_response))) ?ws3)"
    using ollama_round_reply[OF f] ollama_ok_final[OF assms(2,3)] by simp
  then have "ollama_loop env p 0 ?cm ?ws1 =
      (None, post (Response (p_groupId p)
        (final_text (str_or (o_content (message c)) no_response))) ?ws3)"
    by (rule ollama_loop_first)
  then have inv: "invokeOllama env p ws =
      post (Response (p_groupId p) (final_text (str_or (o_content (message c)) no_response))) ?ws3"
    by (simp add: invokeOllama_unfold)
  have adv: "advance 1 ?ws1 ?ws3"
    using advance_quiet_right[OF o_before_advance o_logged_quiet] .
  show ?thesis using ends_with_post[OF o_start_quiet adv] by (simp only: inv)
qed

lemma final_text_placeholder: "final_text no_response = no_response"
  using no_response_nonempty by (simp add: final_text_def Let_def strip_plain trim_plain)

lemma final_text_empty: "trim (strip_internal t) = [] \<Longrightarrow> final_text t = no_response"
  by (simp add: final_text_def Let_def)

lemma final_text_or:
  "trim (strip_internal (str_or v [])) = [] \<Longrightarrow> final_text (str_or v no_response) = no_response"
proof (cases v)
  case None
  then show ?thesis by (simp add: str_or_def final_text_placeholder)
next
  case (Some s)
  assume a: "trim (strip_internal (str_or v [])) = []"
  show ?thesis
  proof (cases "s = []")
    case True
    then show ?thesis using Some by (simp add: str_or_def final_text_placeholder)
  next
    case False
    then show ?thesis using Some a by (simp add: str_or_def final_text_empty)
  qed
qed

lemma no_empty_response:
  assumes "ends_with c (fresh w) ws'" "is_completion c" "c \<noteq> Response g []"
  shows "Response g [] \<notin> set (outbox ws')"
proof
  assume in_out: "Response g [] \<in> set (outbox ws')"
  obtain xs where xs: "outbox ws' = xs @ [c]" "completions xs = []"
    using assms(1) by (auto simp: ends_with_def fresh_def)
  have "Response g [] \<in> set xs" using in_out xs(1) assms(3) by auto
  then have "Response g [] \<in> set (completions xs)"
    by (simp add: completions_def is_completion_def)
  then show False using xs(2) by simp
qed

lemma strip_empty: "trim (strip_internal []) = []"
  by (simp add: trim_def strip_no_open)

text \<open>
  Claim C10. When the backend ends the turn and the text of its reply, with every
  \<open>internal\<close> section removed and the result trimmed, is empty (as it is when the
  reply has no text at all), the worker posts \<open>(no response)\<close> as its only \<open>response\<close> envelope, in both
  protocol variants. And no invocation, whatever the backend and the tools do, ever
  posts a \<open>response\<close> envelope with an empty text.
\<close>

theorem placeholder_for_empty:
  "no_response = js ''(no response)'' \<and>
   trim (strip_internal []) = [] \<and>
   ((\<forall>w req. \<exists>w'. anthropic_fetch env w req = (HttpOk r, w')) \<and>
    stop_reason r \<noteq> js ''tool_use'' \<and>
    trim (strip_internal (concat (map block_text (a_content r)))) = [] \<longrightarrow>
      completions (outbox (invokeAnthropic env p (fresh w))) = [Response (p_groupId p) no_response]) \<and>
   ((\<forall>w req. \<exists>w'. ollama_fetch env w req = (HttpOk ro, w')) \<and> choices ro = c # cs \<and>
    \<not> (finish_reason c = js ''tool_calls'' \<and> tool_calls (message c) \<noteq> None) \<and>
    trim (strip_internal (str_or (o_content (message c)) [])) = [] \<longrightarrow>
      completions (outbox (invokeOllama env p (fresh w))) = [Response (p_groupId p) no_response]) \<and>
   Response (p_groupId p) [] \<notin> set (outbox (invokeAnthropic env p (fresh w))) \<and>
   Response (p_groupId p) [] \<notin> set (outbox (invokeOllama env p (fresh w)))"
proof -
  have a: "completions (outbox (invokeAnthropic env p (fresh w))) = [Response (p_groupId p) no_response]"
    if h: "\<forall>w req. \<exists>w'. anthropic_fetch env w req = (HttpOk r, w')"
      "stop_reason r \<noteq> js ''tool_use''"
      "trim (strip_internal (concat (map block_text (a_content r)))) = []"
    using invokeAnthropic_final[OF h(1) h(2), of p "fresh w"] final_text_empty[OF h(3)]
      ends_with_fresh[of "Response (p_groupId p) no_response" w "invokeAnthropic env p (fresh w)"]
    by (simp add: is_completion_def)
  have b: "completions (outbox (invokeOllama env p (fresh w))) = [Response (p_groupId p) no_response]"
    if h: "\<forall>w req. \<exists>w'. ollama_fetch env w req = (HttpOk ro, w')" "choices ro = c # cs"
      "\<not> (finish_reason c = js ''tool_calls'' \<and> tool_calls (message c) \<noteq> None)"
      "trim (strip_internal (str_or (o_content (message c)) [])) = []"
  proof -
    have n: "(if finish_reason c = js ''tool_calls'' then tool_calls (message c) else None) = None"
      using h(3) by auto
    show ?thesis
      using invokeOllama_final[OF h(1) h(2) n, of p "fresh w"] final_text_or[OF h(4)]
        ends_with_fresh[of "Response (p_groupId p) no_response" w "invokeOllama env p (fresh w)"]
      by (simp add: is_completion_def)
  qed
  obtain ca where ca: "is_completion ca" "ca \<noteq> Response (p_groupId p) []"
      "ends_with ca (fresh w) (invokeAnthropic env p (fresh w))"
    using invokeAnthropic_finishes[of p "fresh w" env] by blast
  obtain co where co: "is_completion co" "co \<noteq> Response (p_groupId p) []"
      "ends_with co (fresh w) (invokeOllama env p (fresh w))"
    using invokeOllama_finishes[of p "fresh w" env] by blast
  have c: "Response (p_groupId p) [] \<notin> set (outbox (invokeAnthropic env p (fresh w)))"
    using no_empty_response[OF ca(3) ca(1) ca(2)] .
  have d: "Response (p_groupId p) [] \<notin> set (outbox (invokeOllama env p (fresh w)))"
    using no_empty_response[OF co(3) co(1) co(2)] .
  show ?thesis using a b c d strip_empty by (simp add: no_response_def)
qed

theorem placeholder_for_empty_witness:
  "stop_reason hidden_reply_a \<noteq> js ''tool_use'' \<and>
   trim (strip_internal (concat (map block_text (a_content hidden_reply_a)))) = [] \<and>
   completions (outbox (invokeAnthropic (stub_env (HttpOk hidden_reply_a) (HttpOk hidden_reply_o))
       demo_payload (fresh ()))) = [Response (js ''tg:42'') (js ''(no response)'')] \<and>
   completions (outbox (invokeOllama (stub_env (HttpOk hidden_reply_a) (HttpOk hidden_reply_o))
       demo_payload (fresh ()))) = [Response (js ''tg:42'') (js ''(no response)'')]"
proof -
  let ?env = "stub_env (HttpOk hidden_reply_a) (HttpOk hidden_reply_o)"
  have h1: "\<forall>w req. \<exists>w'. anthropic_fetch ?env w req = (HttpOk hidden_reply_a, w')"
    by (simp add: stub_env_def)
  have h2: "stop_reason hidden_reply_a \<noteq> js ''tool_use''"
    by (simp add: hidden_reply_a_def js_def)
  have h3: "trim (strip_internal (concat (map block_text (a_content hidden_reply_a)))) = []"
    by (simp add: hidden_reply_a_def hidden_text_def hidden_trim)
  have k1: "\<forall>w req. \<exists>w'. ollama_fetch ?env w req = (HttpOk hidden_reply_o, w')"
    by (simp add: stub_env_def)
  have k2: "choices hidden_reply_o = hidden_choice # []" by (simp add: hidden_reply_o_def)
  have k3: "\<not> (finish_reason hidden_choice = js ''tool_calls'' \<and>
              tool_calls (message hidden_choice) \<noteq> None)"
    by (simp add: hidden_choice_def)
  have ne: "hidden_text \<noteq> []" by (simp add: hidden_text_def js_def)
  have k4: "trim (strip_internal (str_or (o_content (message hidden_choice)) [])) = []"
    using ne by (simp add: hidden_choice_def str_or_def) (simp add: hidden_text_def hidden_trim)
  have g: "p_groupId demo_payload = js ''tg:42''" by (simp add: demo_payload_def)
  note t = placeholder_for_empty[where env="?env" and r=hidden_reply_a and ro=hidden_reply_o
      and c=hidden_choice and cs="[]" and p=demo_payload and w="()", unfolded g]
  have "completions (outbox (invokeAnthropic ?env demo_payload (fresh ()))) =
      [Response (js ''tg:42'') no_response] \<and>
    completions (outbox (invokeOllama ?env demo_payload (fresh ()))) =
      [Response (js ''tg:42'') no_response]"
    using t h1 h2 h3 k1 k2 k3 k4 by blast
  then show ?thesis using h2 h3 by (simp add: no_response_def)
qed

section \<open>Backend errors, end to end\<close>





end
